theory Spec2Isabelle
  imports Main "HOL-Library.AList" "HOL-Library.Multiset"
begin

section \<open>The batched lookup and cache layer of TwitchData\<close>

text \<open>
  The module keeps, per entity kind, a registry of waiting callers (a JavaScript
  \<^verbatim>\<open>Map\<close> from a key to an array of \<^verbatim>\<open>[s, f]\<close> continuation pairs), a
  \<^verbatim>\<open>_loading_*\<close> flag, and for tags a cache. The asynchronous methods are split
  at their suspension points: the part that runs up to the awaited query, the
  \<^verbatim>\<open>catch\<close> block, and the code after the \<^verbatim>\<open>try\<close>. Calls of the continuations
  \<^verbatim>\<open>pair[0](v)\<close> and \<^verbatim>\<open>pair[1](err)\<close> are recorded, in order, in a log.
\<close>

subsection \<open>JavaScript values\<close>

text \<open>
  The values that occur as ids, logins and node fields. \<open>JNull\<close> stands for
  \<^verbatim>\<open>null\<close> and \<^verbatim>\<open>undefined\<close>; of an object only its \<^verbatim>\<open>id\<close> property is kept.
\<close>

datatype jsval = JNull | JNum int | JStr string | JObj jsval

fun truthy :: "jsval \<Rightarrow> bool" where
  "truthy JNull = False"
| "truthy (JNum n) = (n \<noteq> 0)"
| "truthy (JStr s) = (s \<noteq> [])"
| "truthy (JObj v) = True"

fun prop_id :: "jsval \<Rightarrow> jsval" where
  "prop_id (JObj v) = v"
| "prop_id v = JNull"

text \<open>A user node of a bulk response; \<open>node_stream\<close> is its \<^verbatim>\<open>stream\<close> property.\<close>

record user_node =
  node_id :: jsval
  node_login :: jsval
  node_stream :: jsval

text \<open>A raw tag node as the remote endpoint sends it.\<close>

record tag_node =
  tn_id :: jsval
  tn_tagName :: jsval
  tn_localizedName :: jsval
  tn_localizedDescription :: jsval
  tn_isAutomated :: jsval
  tn_isLanguageTag :: jsval
  tn_scope :: jsval

text \<open>A cached tag; \<open>label\<close> and \<open>description\<close> are \<open>None\<close> while the property is absent.\<close>

record tag =
  tag_id :: jsval
  tag_value :: jsval
  is_auto :: jsval
  is_language :: jsval
  language :: jsval
  name :: jsval
  scope :: jsval
  label :: "jsval option"
  description :: "jsval option"

datatype error = Message string | Thrown nat | TypeError

datatype payload = PVal jsval | PUser user_node | PTag tag

datatype outcome = Fulfilled payload | Rejected error

type_synonym waiter = nat
type_synonym registry = "(jsval \<times> waiter list) list"
type_synonym settlements = "(waiter \<times> outcome) list"

datatype query =
  UsersQ "jsval list option" "jsval list option"
| StreamsQ "jsval list option" "jsval list option"
| TagsQ "jsval list"

subsection \<open>Map and Set operations\<close>

text \<open>
  A \<^verbatim>\<open>Map\<close> is an association list in insertion order: \<^verbatim>\<open>get\<close> is \<^const>\<open>map_of\<close>,
  \<^verbatim>\<open>set\<close> is \<^const>\<open>AList.update\<close> (an existing key keeps its place, a new one goes
  to the end), \<^verbatim>\<open>delete\<close> is \<^const>\<open>AList.delete\<close>, \<^verbatim>\<open>keys()\<close> is \<open>map fst\<close>.
\<close>

definition map_has :: "'k \<Rightarrow> ('k \<times> 'v) list \<Rightarrow> bool" where
  "map_has k m = (map_of m k \<noteq> None)"

text \<open>\<^verbatim>\<open>new Set(xs)\<close>: the elements of \<open>xs\<close> in order of first occurrence.\<close>

fun uniq :: "'a list \<Rightarrow> 'a list" where
  "uniq [] = []"
| "uniq (x # xs) = x # removeAll x (uniq xs)"

text \<open>Joining a registry: \<^verbatim>\<open>if (m.has(k)) m.get(k).push([s,f]); else m.set(k, [[s,f]])\<close>.\<close>

definition register :: "jsval \<Rightarrow> waiter \<Rightarrow> registry \<Rightarrow> registry" where
  "register k w m =
     (case map_of m k of
        Some ps \<Rightarrow> AList.update k (ps @ [w]) m
      | None \<Rightarrow> AList.update k [w] m)"

text \<open>\<^verbatim>\<open>for(const pair of promises) pair[0](v)\<close> and \<^verbatim>\<open>pair[1](err)\<close>.\<close>

definition fulfil :: "payload \<Rightarrow> waiter list \<Rightarrow> settlements \<Rightarrow> settlements" where
  "fulfil v ps lg = lg @ map (\<lambda>w. (w, Fulfilled v)) ps"

definition reject :: "error \<Rightarrow> waiter list \<Rightarrow> settlements \<Rightarrow> settlements" where
  "reject e ps lg = lg @ map (\<lambda>w. (w, Rejected e)) ps"

text \<open>
  The guarded block
  \<^verbatim>\<open>promises = m.get(k); if (promises) { m.delete(k); for(pair of promises) pair[0](v) }\<close>.
\<close>

definition resolve_key :: "jsval \<Rightarrow> payload \<Rightarrow> registry \<times> settlements \<Rightarrow> registry \<times> settlements" where
  "resolve_key k v acc =
     (case acc of (m, lg) \<Rightarrow>
        (case map_of m k of
           None \<Rightarrow> (m, lg)
         | Some ps \<Rightarrow> (AList.delete k m, fulfil v ps lg)))"

text \<open>
  The unguarded loop of the \<^verbatim>\<open>catch\<close> blocks,
  \<^verbatim>\<open>for(k of ks) { promises = m.get(k); m.delete(k); for(pair of promises) pair[1](err) }\<close>:
  iterating \<^verbatim>\<open>undefined\<close> throws a TypeError, which ends the loop.
\<close>

fun reject_keys :: "error \<Rightarrow> jsval list \<Rightarrow> registry \<times> settlements \<Rightarrow> error option \<times> registry \<times> settlements" where
  "reject_keys e [] (m, lg) = (None, m, lg)"
| "reject_keys e (k # ks) (m, lg) =
     (case map_of m k of
        None \<Rightarrow> (Some TypeError, AList.delete k m, lg)
      | Some ps \<Rightarrow> reject_keys e ks (AList.delete k m, reject e ps lg))"

text \<open>The loops over the leftover \<^verbatim>\<open>id_set\<close> and \<^verbatim>\<open>login_set\<close> of users and streams.\<close>

fun resolve_missing :: "jsval list \<Rightarrow> registry \<times> settlements \<Rightarrow> registry \<times> settlements" where
  "resolve_missing [] acc = acc"
| "resolve_missing (k # ks) acc = resolve_missing ks (resolve_key k (PVal JNull) acc)"

text \<open>
  The loop over the response nodes of \<^verbatim>\<open>_loadUsers\<close> and \<^verbatim>\<open>_loadStreams\<close>; the two
  differ in the value \<open>f node\<close> handed to the waiters (\<^verbatim>\<open>node\<close>, \<^verbatim>\<open>node.stream\<close>).
  The accumulator is \<open>(id_set, login_set, waiting ids, waiting logins, log)\<close>.
\<close>

fun resolve_nodes ::
  "(user_node \<Rightarrow> payload) \<Rightarrow> user_node option list \<Rightarrow>
   jsval list \<times> jsval list \<times> registry \<times> registry \<times> settlements \<Rightarrow>
   jsval list \<times> jsval list \<times> registry \<times> registry \<times> settlements" where
  "resolve_nodes f [] acc = acc"
| "resolve_nodes f (None # nodes) acc = resolve_nodes f nodes acc"
| "resolve_nodes f (Some n # nodes) (id_set, login_set, wi, wl, lg) =
     (if \<not> truthy (node_id n) then resolve_nodes f nodes (id_set, login_set, wi, wl, lg)
      else
        (case resolve_key (node_id n) (f n) (wi, lg) of (wi', lg') \<Rightarrow>
           (case resolve_key (node_login n) (f n) (wl, lg') of (wl', lg'') \<Rightarrow>
              resolve_nodes f nodes
                (removeAll (node_id n) id_set, removeAll (node_login n) login_set, wi', wl', lg''))))"

text \<open>Everything after the \<^verbatim>\<open>try\<close> up to the clearing of the flag.\<close>

definition fan_out ::
  "(user_node \<Rightarrow> payload) \<Rightarrow> user_node option list option \<Rightarrow> jsval list \<Rightarrow> jsval list \<Rightarrow>
   registry \<times> registry \<times> settlements \<Rightarrow> registry \<times> registry \<times> settlements" where
  "fan_out f nodes ids logins acc =
     (case acc of (wi, wl, lg) \<Rightarrow>
        (case (case nodes of
                 Some ns \<Rightarrow> resolve_nodes f ns (uniq ids, uniq logins, wi, wl, lg)
               | None \<Rightarrow> (uniq ids, uniq logins, wi, wl, lg)) of
           (id_set, login_set, wi1, wl1, lg1) \<Rightarrow>
             (case resolve_missing id_set (wi1, lg1) of (wi2, lg2) \<Rightarrow>
                (case resolve_missing login_set (wl1, lg2) of (wl2, lg3) \<Rightarrow>
                   (wi2, wl2, lg3)))))"

text \<open>The selection \<^verbatim>\<open>ids = [...keys()].slice(0, 50)\<close>, \<^verbatim>\<open>remaining = 50 - ids.length\<close>.\<close>

definition select_ids :: "registry \<Rightarrow> jsval list" where
  "select_ids wi = take 50 (map fst wi)"

definition select_logins :: "jsval list \<Rightarrow> registry \<Rightarrow> jsval list" where
  "select_logins ids wl =
     (let remaining = 50 - int (length ids)
      in if remaining > 0 then take (nat remaining) (map fst wl) else [])"

text \<open>\<^verbatim>\<open>xs.length ? xs : null\<close>.\<close>

definition or_null :: "'a list \<Rightarrow> 'a list option" where
  "or_null xs = (if xs \<noteq> [] then Some xs else None)"

subsection \<open>The state of a TwitchData instance\<close>

text \<open>
  Besides the fields of the class, the state holds the constants \<^verbatim>\<open>ids\<close> and
  \<^verbatim>\<open>logins\<close> of a suspended \<^verbatim>\<open>_load*\<close> call (\<open>*_cycle\<close>), the pending timers of the
  debounced methods, the log of continuation calls and the log of remote queries.
\<close>

record state =
  waiting_user_ids :: registry
  waiting_user_logins :: registry
  loading_users :: bool
  users_cycle :: "(jsval list \<times> jsval list) option"
  waiting_stream_ids :: registry
  waiting_stream_logins :: registry
  loading_streams :: bool
  streams_cycle :: "(jsval list \<times> jsval list) option"
  streams_timer :: bool
  tag_cache :: "(jsval \<times> tag) list"
  waiting_tags :: registry
  loading_tags :: bool
  tags_cycle :: "jsval list option"
  tags_timer :: bool
  settled :: settlements
  queries :: "query list"

text \<open>The constructor: empty maps, no flag set.\<close>

definition init :: state where
  "init = \<lparr> waiting_user_ids = [], waiting_user_logins = [], loading_users = False,
            users_cycle = None,
            waiting_stream_ids = [], waiting_stream_logins = [], loading_streams = False,
            streams_cycle = None, streams_timer = False,
            tag_cache = [], waiting_tags = [], loading_tags = False,
            tags_cycle = None, tags_timer = False,
            settled = [], queries = [] \<rparr>"

subsection \<open>Users\<close>

text \<open>\<^verbatim>\<open>_loadUsers\<close> up to its awaited query. The constructor does not wrap it.\<close>

definition loadUsers :: "state \<Rightarrow> state" where
  "loadUsers s =
     (if loading_users s then s
      else
        (let ids = select_ids (waiting_user_ids s);
             logins = select_logins ids (waiting_user_logins s)
         in s\<lparr> loading_users := True,
                users_cycle := Some (ids, logins),
                queries := queries s @ [UsersQ (or_null ids) (or_null logins)] \<rparr>))"

definition getUserBasic :: "waiter \<Rightarrow> jsval \<Rightarrow> jsval \<Rightarrow> state \<Rightarrow> state" where
  "getUserBasic w ident login s =
     (let s1 =
        (if truthy ident then s\<lparr> waiting_user_ids := register ident w (waiting_user_ids s) \<rparr>
         else if truthy login then s\<lparr> waiting_user_logins := register login w (waiting_user_logins s) \<rparr>
         else s\<lparr> settled := reject (Message ''id and login cannot both be null'') [w] (settled s) \<rparr>)
      in if \<not> loading_users s1 then loadUsers s1 else s1)"

text \<open>
  The \<^verbatim>\<open>catch\<close> block of \<^verbatim>\<open>_loadUsers\<close>, entered with the thrown value. The result
  carries the exception, if any, that the block itself raises.
\<close>

definition loadUsers_catch :: "error \<Rightarrow> state \<Rightarrow> error option \<times> state" where
  "loadUsers_catch err s =
     (case users_cycle s of
        None \<Rightarrow> (None, s)
      | Some (ids, logins) \<Rightarrow>
          (case reject_keys err ids (waiting_user_ids s, settled s) of
             (Some e, wi, lg) \<Rightarrow>
               (Some e, s\<lparr> waiting_user_ids := wi, settled := lg, users_cycle := None \<rparr>)
           | (None, wi, lg) \<Rightarrow>
               (case reject_keys err logins (waiting_user_logins s, lg) of
                  (e, wl, lg') \<Rightarrow>
                    (e, s\<lparr> waiting_user_ids := wi, waiting_user_logins := wl,
                           settled := lg', users_cycle := None \<rparr>))))"

text \<open>\<^verbatim>\<open>_loadUsers\<close> after a successful query, \<open>nodes\<close> being \<^verbatim>\<open>get('data.users', data)\<close>
  (\<open>None\<close> when that is not an array).\<close>

definition loadUsers_resume :: "user_node option list option \<Rightarrow> state \<Rightarrow> state" where
  "loadUsers_resume nodes s =
     (case users_cycle s of
        None \<Rightarrow> s
      | Some (ids, logins) \<Rightarrow>
          (case fan_out PUser nodes ids logins
                  (waiting_user_ids s, waiting_user_logins s, settled s) of
             (wi, wl, lg) \<Rightarrow>
               (let s' = s\<lparr> waiting_user_ids := wi, waiting_user_logins := wl, settled := lg,
                            loading_users := False, users_cycle := None \<rparr>
                in if 0 < length wi \<or> 0 < length wl then loadUsers s' else s')))"

subsection \<open>Streams\<close>

text \<open>
  Modelled from the spec: the helper \<^verbatim>\<open>debounce\<close> of utilities/object is not among
  the sources. A call of the wrapped method only arms a timer; when the timer
  fires, the method itself runs once.
\<close>

definition loadStreams :: "state \<Rightarrow> state" where
  "loadStreams s = s\<lparr> streams_timer := True \<rparr>"

text \<open>\<^verbatim>\<open>_loadStreams\<close> itself, up to its awaited query.\<close>

definition loadStreams_body :: "state \<Rightarrow> state" where
  "loadStreams_body s =
     (if loading_streams s then s
      else
        (let ids = select_ids (waiting_stream_ids s);
             logins = select_logins ids (waiting_stream_logins s)
         in s\<lparr> loading_streams := True,
                streams_cycle := Some (ids, logins),
                queries := queries s @ [StreamsQ (or_null ids) (or_null logins)] \<rparr>))"

definition loadStreams_timeout :: "state \<Rightarrow> state" where
  "loadStreams_timeout s =
     (if streams_timer s then loadStreams_body (s\<lparr> streams_timer := False \<rparr>) else s)"

definition getStreamMeta :: "waiter \<Rightarrow> jsval \<Rightarrow> jsval \<Rightarrow> state \<Rightarrow> state" where
  "getStreamMeta w ident login s =
     (let s1 =
        (if truthy ident then s\<lparr> waiting_stream_ids := register ident w (waiting_stream_ids s) \<rparr>
         else if truthy login then s\<lparr> waiting_stream_logins := register login w (waiting_stream_logins s) \<rparr>
         else s\<lparr> settled := reject (Message ''id and login cannot both be null'') [w] (settled s) \<rparr>)
      in if \<not> loading_streams s1 then loadStreams s1 else s1)"

definition loadStreams_catch :: "error \<Rightarrow> state \<Rightarrow> error option \<times> state" where
  "loadStreams_catch err s =
     (case streams_cycle s of
        None \<Rightarrow> (None, s)
      | Some (ids, logins) \<Rightarrow>
          (case reject_keys err ids (waiting_stream_ids s, settled s) of
             (Some e, wi, lg) \<Rightarrow>
               (Some e, s\<lparr> waiting_stream_ids := wi, settled := lg, streams_cycle := None \<rparr>)
           | (None, wi, lg) \<Rightarrow>
               (case reject_keys err logins (waiting_stream_logins s, lg) of
                  (e, wl, lg') \<Rightarrow>
                    (e, s\<lparr> waiting_stream_ids := wi, waiting_stream_logins := wl,
                           settled := lg', streams_cycle := None \<rparr>))))"

definition loadStreams_resume :: "user_node option list option \<Rightarrow> state \<Rightarrow> state" where
  "loadStreams_resume nodes s =
     (case streams_cycle s of
        None \<Rightarrow> s
      | Some (ids, logins) \<Rightarrow>
          (case fan_out (\<lambda>n. PVal (node_stream n)) nodes ids logins
                  (waiting_stream_ids s, waiting_stream_logins s, settled s) of
             (wi, wl, lg) \<Rightarrow>
               (let s' = s\<lparr> waiting_stream_ids := wi, waiting_stream_logins := wl, settled := lg,
                            loading_streams := False, streams_cycle := None \<rparr>
                in if 0 < length wi \<or> 0 < length wl then loadStreams s' else s')))"

subsection \<open>Tags\<close>

text \<open>
  \<^verbatim>\<open>LANGUAGE_MATCHER = /^auto___lang_(\w+)$/\<close>: the result is the first group of
  a match. A tag name that is not a string is converted to one first, and the
  text of a number or of an object never begins with the prefix.
\<close>

definition word_char :: "char \<Rightarrow> bool" where
  "word_char c =
     (let n = (of_char c :: nat)
      in (97 \<le> n \<and> n \<le> 122) \<or> (65 \<le> n \<and> n \<le> 90) \<or> (48 \<le> n \<and> n \<le> 57) \<or> n = 95)"

definition LANGUAGE_MATCHER :: "jsval \<Rightarrow> string option" where
  "LANGUAGE_MATCHER v =
     (case v of
        JStr str \<Rightarrow>
          (let rest = drop 12 str
           in if take 12 str = ''auto___lang_'' \<and> rest \<noteq> [] \<and> list_all word_char rest
              then Some rest else None)
      | _ \<Rightarrow> None)"

definition present :: "jsval option \<Rightarrow> bool" where
  "present p = (case p of None \<Rightarrow> False | Some v \<Rightarrow> truthy v)"

text \<open>The object literal that \<^verbatim>\<open>memorizeTag\<close> builds for an id not yet cached.\<close>

definition new_tag :: "tag_node \<Rightarrow> tag" where
  "new_tag node =
     \<lparr> tag_id = tn_id node,
       tag_value = tn_id node,
       is_auto = tn_isAutomated node,
       is_language = tn_isLanguageTag node,
       language =
         (if truthy (tn_isLanguageTag node)
          then (case LANGUAGE_MATCHER (tn_tagName node) of Some l \<Rightarrow> JStr l | None \<Rightarrow> JNull)
          else JNull),
       name = tn_tagName node,
       scope = tn_scope node,
       label = None,
       description = None \<rparr>"

text \<open>
  \<^verbatim>\<open>memorizeTag(node, dispatch)\<close>: the returned tag (\<open>None\<close> for \<^verbatim>\<open>undefined\<close>) and
  the new state. The cached object is changed in place, so the cache entry
  under \<^verbatim>\<open>node.id\<close> always holds the returned record.
\<close>

definition memorizeTag :: "tag_node option \<Rightarrow> bool \<Rightarrow> state \<Rightarrow> tag option \<times> state" where
  "memorizeTag node dispatch s =
     (case node of
        None \<Rightarrow> (None, s)
      | Some n \<Rightarrow>
          if \<not> truthy (tn_id n) \<or> \<not> truthy (tn_tagName n) \<or> \<not> truthy (tn_localizedName n)
          then (None, s)
          else
            (let tag0 = (case map_of (tag_cache s) (tn_id n) of Some t \<Rightarrow> t | None \<Rightarrow> new_tag n);
                 tag1 = (if truthy (tn_localizedName n)
                         then tag0\<lparr> label := Some (tn_localizedName n) \<rparr> else tag0);
                 tag2 = (if truthy (tn_localizedDescription n)
                         then tag1\<lparr> description := Some (tn_localizedDescription n) \<rparr> else tag1);
                 s1 = s\<lparr> tag_cache := AList.update (tn_id n) tag2 (tag_cache s) \<rparr>
             in if dispatch \<and> present (description tag2) \<and> map_has (tag_id tag2) (waiting_tags s1)
                then
                  (case map_of (waiting_tags s1) (tag_id tag2) of
                     Some ps \<Rightarrow>
                       (Some tag2,
                        s1\<lparr> waiting_tags := AList.delete (tag_id tag2) (waiting_tags s1),
                            settled := fulfil (PTag tag2) ps (settled s1) \<rparr>)
                   | None \<Rightarrow> (Some tag2, s1))
                else (Some tag2, s1)))"

text \<open>
  Modelled from the spec: the helper \<^verbatim>\<open>debounce\<close> of utilities/object is not among
  the sources. The constructor wraps \<^verbatim>\<open>_loadTags\<close> as it wraps \<^verbatim>\<open>_loadStreams\<close>: a
  call arms the timer, the timer runs the method.
\<close>

definition loadTags :: "state \<Rightarrow> state" where
  "loadTags s = s\<lparr> tags_timer := True \<rparr>"

text \<open>\<^verbatim>\<open>_loadTags\<close> itself, up to its awaited query.\<close>

definition loadTags_body :: "state \<Rightarrow> state" where
  "loadTags_body s =
     (if loading_tags s then s
      else
        (let ids = take 50 (map fst (waiting_tags s))
         in s\<lparr> loading_tags := True,
                tags_cycle := Some ids,
                queries := queries s @ [TagsQ ids] \<rparr>))"

definition loadTags_timeout :: "state \<Rightarrow> state" where
  "loadTags_timeout s =
     (if tags_timer s then loadTags_body (s\<lparr> tags_timer := False \<rparr>) else s)"

text \<open>The \<^verbatim>\<open>catch\<close> block of \<^verbatim>\<open>_loadTags\<close>.\<close>

definition loadTags_catch :: "error \<Rightarrow> state \<Rightarrow> error option \<times> state" where
  "loadTags_catch err s =
     (case tags_cycle s of
        None \<Rightarrow> (None, s)
      | Some ids \<Rightarrow>
          (case reject_keys err ids (waiting_tags s, settled s) of
             (e, wt, lg) \<Rightarrow>
               (e, s\<lparr> waiting_tags := wt, settled := lg, tags_cycle := None \<rparr>)))"

text \<open>
  The loop over the response nodes of \<^verbatim>\<open>_loadTags\<close>. Reading \<^verbatim>\<open>tag.id\<close> of the
  \<^verbatim>\<open>undefined\<close> that \<^verbatim>\<open>memorizeTag\<close> returns for a rejected node throws a TypeError.
\<close>

fun loadTags_nodes :: "tag_node option list \<Rightarrow> jsval list \<Rightarrow> state \<Rightarrow> error option \<times> jsval list \<times> state" where
  "loadTags_nodes [] id_set s = (None, id_set, s)"
| "loadTags_nodes (node # nodes) id_set s =
     (case memorizeTag node False s of
        (None, s1) \<Rightarrow> (Some TypeError, id_set, s1)
      | (Some t, s1) \<Rightarrow>
          (let promises = map_of (waiting_tags s1) (tag_id t);
               s2 = s1\<lparr> waiting_tags := AList.delete (tag_id t) (waiting_tags s1) \<rparr>;
               id_set' = removeAll (tag_id t) id_set
           in (case promises of
                 Some ps \<Rightarrow>
                   loadTags_nodes nodes id_set' (s2\<lparr> settled := fulfil (PTag t) ps (settled s2) \<rparr>)
               | None \<Rightarrow> loadTags_nodes nodes id_set' s2)))"

text \<open>The unguarded loop over the leftover \<^verbatim>\<open>id_set\<close> of \<^verbatim>\<open>_loadTags\<close>.\<close>

fun loadTags_missing :: "jsval list \<Rightarrow> registry \<times> settlements \<Rightarrow> error option \<times> registry \<times> settlements" where
  "loadTags_missing [] (m, lg) = (None, m, lg)"
| "loadTags_missing (k # ks) (m, lg) =
     (case map_of m k of
        None \<Rightarrow> (Some TypeError, AList.delete k m, lg)
      | Some ps \<Rightarrow> loadTags_missing ks (AList.delete k m, fulfil (PVal JNull) ps lg))"

text \<open>\<^verbatim>\<open>_loadTags\<close> after a successful query.\<close>

definition loadTags_resume :: "tag_node option list option \<Rightarrow> state \<Rightarrow> error option \<times> state" where
  "loadTags_resume nodes s =
     (case tags_cycle s of
        None \<Rightarrow> (None, s)
      | Some ids \<Rightarrow>
          (case (case nodes of
                   Some ns \<Rightarrow> loadTags_nodes ns (uniq ids) s
                 | None \<Rightarrow> (None, uniq ids, s)) of
             (Some e, id_set, s1) \<Rightarrow> (Some e, s1\<lparr> tags_cycle := None \<rparr>)
           | (None, id_set, s1) \<Rightarrow>
               (case loadTags_missing id_set (waiting_tags s1, settled s1) of
                  (Some e, wt, lg) \<Rightarrow>
                    (Some e, s1\<lparr> waiting_tags := wt, settled := lg, tags_cycle := None \<rparr>)
                | (None, wt, lg) \<Rightarrow>
                    (let s2 = s1\<lparr> waiting_tags := wt, settled := lg,
                                  loading_tags := False, tags_cycle := None \<rparr>
                     in (None, if 0 < length wt then loadTags s2 else s2)))))"

text \<open>
  \<^verbatim>\<open>getTag(id, want_description)\<close>, with \<^verbatim>\<open>if (id && id.id) id = id.id\<close> as
  \<open>tag_key\<close>. \<^verbatim>\<open>Promise.resolve(out)\<close> is recorded as the fulfilment of the caller.
\<close>

definition tag_key :: "jsval \<Rightarrow> jsval" where
  "tag_key ident = (if truthy ident \<and> truthy (prop_id ident) then prop_id ident else ident)"

definition getTag :: "waiter \<Rightarrow> jsval \<Rightarrow> bool \<Rightarrow> state \<Rightarrow> state" where
  "getTag w ident want_description s =
     (let k = tag_key ident
      in case (case map_of (tag_cache s) k of
                 Some out \<Rightarrow> if present (description out) \<or> \<not> want_description then Some out else None
               | None \<Rightarrow> None) of
           Some out \<Rightarrow> s\<lparr> settled := fulfil (PTag out) [w] (settled s) \<rparr>
         | None \<Rightarrow>
             (case map_of (waiting_tags s) k of
                Some ps \<Rightarrow> s\<lparr> waiting_tags := AList.update k (ps @ [w]) (waiting_tags s) \<rparr>
              | None \<Rightarrow>
                  (let s1 = s\<lparr> waiting_tags := AList.update k [w] (waiting_tags s) \<rparr>
                   in if \<not> loading_tags s1 then loadTags s1 else s1)))"

text \<open>
  \<^verbatim>\<open>getTopTags\<close> after its query: the loop with the \<^verbatim>\<open>seen\<close> set and the \<^verbatim>\<open>out\<close>
  array, whose entries are tags or \<^verbatim>\<open>undefined\<close>.
\<close>

fun getTopTags_nodes :: "tag_node option list \<Rightarrow> jsval list \<Rightarrow> tag option list \<Rightarrow> state \<Rightarrow> tag option list \<times> state" where
  "getTopTags_nodes [] seen out s = (out, s)"
| "getTopTags_nodes (None # nodes) seen out s = getTopTags_nodes nodes seen out s"
| "getTopTags_nodes (Some n # nodes) seen out s =
     (if tn_id n \<in> set seen then getTopTags_nodes nodes seen out s
      else
        (case memorizeTag (Some n) True s of
           (t, s1) \<Rightarrow> getTopTags_nodes nodes (seen @ [tn_id n]) (out @ [t]) s1))"

definition getTopTags_resume :: "tag_node option list option \<Rightarrow> state \<Rightarrow> tag option list \<times> state" where
  "getTopTags_resume nodes s =
     (case nodes of
        None \<Rightarrow> ([], s)
      | Some ns \<Rightarrow> getTopTags_nodes ns [] [] s)"

subsection \<open>Notions used to state the properties\<close>

text \<open>A node that \<^verbatim>\<open>memorizeTag\<close> accepts.\<close>

definition well_formed :: "tag_node \<Rightarrow> bool" where
  "well_formed n = (truthy (tn_id n) \<and> truthy (tn_tagName n) \<and> truthy (tn_localizedName n))"

text \<open>Every cache entry sits under its own id.\<close>

definition cache_ok :: "state \<Rightarrow> bool" where
  "cache_ok s = list_all (\<lambda>(k, t). tag_id t = k) (tag_cache s)"

text \<open>The entries of an array that are not \<^verbatim>\<open>null\<close> or \<^verbatim>\<open>undefined\<close>.\<close>

fun somes :: "'a option list \<Rightarrow> 'a list" where
  "somes [] = []"
| "somes (None # xs) = somes xs"
| "somes (Some x # xs) = x # somes xs"

text \<open>The nodes that are the first of their id, in their order.\<close>

fun first_by_id :: "tag_node list \<Rightarrow> tag_node list" where
  "first_by_id [] = []"
| "first_by_id (n # ns) = n # filter (\<lambda>m. tn_id m \<noteq> tn_id n) (first_by_id ns)"

text \<open>The id under which a node of \<^verbatim>\<open>getTopTags\<close> shows in the result, if it is stored.\<close>

definition key_of :: "tag_node \<Rightarrow> jsval option" where
  "key_of n = (if well_formed n then Some (tn_id n) else None)"

text \<open>
  The entity that answers a pending key: the first node of the response that is
  not null, has a truthy id, and carries the key as its id (as its login).
\<close>

definition id_match :: "user_node option list option \<Rightarrow> jsval \<Rightarrow> user_node option" where
  "id_match nodes k =
     (case nodes of
        None \<Rightarrow> None
      | Some ns \<Rightarrow> find (\<lambda>n. truthy (node_id n) \<and> node_id n = k) (somes ns))"

definition login_match :: "user_node option list option \<Rightarrow> jsval \<Rightarrow> user_node option" where
  "login_match nodes k =
     (case nodes of
        None \<Rightarrow> None
      | Some ns \<Rightarrow> find (\<lambda>n. truthy (node_id n) \<and> node_login n = k) (somes ns))"

text \<open>
  What a successful query does to the two registries and the log: a pending key
  that has an answering node is removed and its waiters get \<open>f node\<close>; a pending
  key without one is removed and its waiters get \<^verbatim>\<open>null\<close> when it was selected,
  and keeps its waiters otherwise; the log only grows.
\<close>

definition fanned_out ::
  "(user_node \<Rightarrow> payload) \<Rightarrow> user_node option list option \<Rightarrow> jsval list \<Rightarrow> jsval list \<Rightarrow>
   registry \<Rightarrow> registry \<Rightarrow> settlements \<Rightarrow> registry \<Rightarrow> registry \<Rightarrow> settlements \<Rightarrow> bool" where
  "fanned_out f nodes ids logins wi wl lg wi' wl' lg' =
     ((\<forall>k ps. map_of wi k = Some ps \<longrightarrow>
         (case id_match nodes k of
            Some n \<Rightarrow> map_of wi' k = None \<and> (\<forall>w\<in>set ps. (w, Fulfilled (f n)) \<in> set lg')
          | None \<Rightarrow>
              if k \<in> set ids
              then map_of wi' k = None \<and> (\<forall>w\<in>set ps. (w, Fulfilled (PVal JNull)) \<in> set lg')
              else map_of wi' k = Some ps)) \<and>
      (\<forall>k ps. map_of wl k = Some ps \<longrightarrow>
         (case login_match nodes k of
            Some n \<Rightarrow> map_of wl' k = None \<and> (\<forall>w\<in>set ps. (w, Fulfilled (f n)) \<in> set lg')
          | None \<Rightarrow>
              if k \<in> set logins
              then map_of wl' k = None \<and> (\<forall>w\<in>set ps. (w, Fulfilled (PVal JNull)) \<in> set lg')
              else map_of wl' k = Some ps)) \<and>
      (\<exists>ext. lg' = lg @ ext))"

text \<open>
  The outcome of a cycle for a pending key: the value its waiters are fulfilled
  with, or \<open>None\<close> when the key is left in the registry.
\<close>

definition id_outcome ::
  "(user_node \<Rightarrow> payload) \<Rightarrow> user_node option list option \<Rightarrow> jsval list \<Rightarrow> jsval \<Rightarrow> payload option" where
  "id_outcome f nodes ids k =
     (case id_match nodes k of
        Some n \<Rightarrow> Some (f n)
      | None \<Rightarrow> if k \<in> set ids then Some (PVal JNull) else None)"

definition login_outcome ::
  "(user_node \<Rightarrow> payload) \<Rightarrow> user_node option list option \<Rightarrow> jsval list \<Rightarrow> jsval \<Rightarrow> payload option" where
  "login_outcome f nodes logins k =
     (case login_match nodes k of
        Some n \<Rightarrow> Some (f n)
      | None \<Rightarrow> if k \<in> set logins then Some (PVal JNull) else None)"

text \<open>One fulfilment for each waiter of each key of a registry that has an outcome.\<close>

definition entries :: "payload option \<Rightarrow> waiter list \<Rightarrow> settlements" where
  "entries d ps = (case d of None \<Rightarrow> [] | Some v \<Rightarrow> map (\<lambda>w. (w, Fulfilled v)) ps)"

definition settles :: "(jsval \<Rightarrow> payload option) \<Rightarrow> registry \<Rightarrow> settlements" where
  "settles d m = concat (map (\<lambda>(k, ps). entries (d k) ps) m)"

text \<open>
  The exact effect of a successful query: the registries lose the keys that
  have an outcome and keep the other keys, with their waiters, in their order;
  the log grows by exactly one fulfilment, with the outcome of the key, for each
  waiter of each key that has an outcome, and by nothing else.
\<close>

definition settled_exactly ::
  "(user_node \<Rightarrow> payload) \<Rightarrow> user_node option list option \<Rightarrow> jsval list \<Rightarrow> jsval list \<Rightarrow>
   registry \<Rightarrow> registry \<Rightarrow> settlements \<Rightarrow> registry \<Rightarrow> registry \<Rightarrow> settlements \<Rightarrow> bool" where
  "settled_exactly f nodes ids logins wi wl lg wi' wl' lg' =
     (wi' = filter (\<lambda>(k, ps). id_outcome f nodes ids k = None) wi \<and>
      wl' = filter (\<lambda>(k, ps). login_outcome f nodes logins k = None) wl \<and>
      (\<exists>ext. lg' = lg @ ext \<and>
         mset ext = mset (settles (id_outcome f nodes ids) wi) +
                    mset (settles (login_outcome f nodes logins) wl)))"

section \<open>Properties\<close>

subsection \<open>The cycle flag on the failure path\<close>

lemma catch_keeps_flags:
  "loading_users (snd (loadUsers_catch err s)) = loading_users s"
  "loading_streams (snd (loadStreams_catch err s)) = loading_streams s"
  "loading_tags (snd (loadTags_catch err s)) = loading_tags s"
  by (auto simp: loadUsers_catch_def loadStreams_catch_def loadTags_catch_def
           split: option.splits prod.splits)

text \<open>
  C1. The claim asks that the flag be cleared on every exit path before the re-arm
  check. The \<^verbatim>\<open>catch\<close> block returns with the flag still set and without the
  re-arm check: two lookups are issued, the query for the first fails, and from
  then on the second key stays pending, no call of \<^verbatim>\<open>_loadUsers\<close> does anything
  and a later lookup sends no query.
\<close>

theorem loadUsers_failure_keeps_flag:
  "let s0 = getUserBasic 1 (JNum 2) JNull (getUserBasic 0 (JNum 1) JNull init);
       s1 = snd (loadUsers_catch (Thrown 0) s0);
       s2 = getUserBasic 2 (JNum 3) JNull s1
   in users_cycle s0 = Some ([JNum 1], []) \<and>
      settled s1 = [(0, Rejected (Thrown 0))] \<and>
      loading_users s1 \<and>
      waiting_user_ids s1 = [(JNum 2, [1])] \<and>
      loadUsers s1 = s1 \<and>
      queries s2 = [UsersQ (Some [JNum 1]) None] \<and>
      users_cycle s2 = None \<and>
      waiting_user_ids s2 = [(JNum 2, [1]), (JNum 3, [2])] \<and>
      settled s2 = settled s1"
  by (simp add: init_def getUserBasic_def loadUsers_def loadUsers_catch_def register_def
        select_ids_def select_logins_def or_null_def reject_def Let_def)

subsection \<open>Lookups issued together\<close>

text \<open>
  For comparison: two stream lookups issued together wait for the timer and
  share one query.
\<close>

lemma getStreamMeta_debounced:
  "let n1 = \<lparr>node_id = JNum 1, node_login = JStr ''one'', node_stream = JObj (JNum 7)\<rparr>;
       n2 = \<lparr>node_id = JNum 2, node_login = JStr ''two'', node_stream = JNull\<rparr>;
       s1 = getStreamMeta 0 (JNum 1) JNull init;
       s2 = getStreamMeta 1 (JNum 2) JNull s1;
       s3 = loadStreams_timeout s2;
       s4 = loadStreams_resume (Some [Some n1, Some n2]) s3
   in queries s2 = [] \<and>
      queries s4 = [StreamsQ (Some [JNum 1, JNum 2]) None] \<and>
      settled s4 = [(0, Fulfilled (PVal (JObj (JNum 7)))), (1, Fulfilled (PVal JNull))] \<and>
      \<not> loading_streams s4 \<and> \<not> streams_timer s4"
  by (simp add: init_def getStreamMeta_def loadStreams_def loadStreams_body_def
        loadStreams_timeout_def loadStreams_resume_def register_def select_ids_def
        select_logins_def or_null_def fulfil_def fan_out_def resolve_key_def Let_def)

text \<open>
  C4. The claim asks for exactly one remote query for user lookups issued within
  one window. \<^verbatim>\<open>_loadUsers\<close> is not debounced: the first lookup starts a cycle at
  once with its own key only, the second lookup of the same tick misses that
  cycle, and a second query follows. Each caller still gets its own result.
\<close>

theorem getUserBasic_not_debounced:
  "let n1 = \<lparr>node_id = JNum 1, node_login = JStr ''one'', node_stream = JNull\<rparr>;
       n2 = \<lparr>node_id = JNum 2, node_login = JStr ''two'', node_stream = JNull\<rparr>;
       s1 = getUserBasic 0 (JNum 1) JNull init;
       s2 = getUserBasic 1 (JNum 2) JNull s1;
       s3 = loadUsers_resume (Some [Some n1]) s2;
       s4 = loadUsers_resume (Some [Some n2]) s3
   in queries s1 = [UsersQ (Some [JNum 1]) None] \<and>
      queries s2 = [UsersQ (Some [JNum 1]) None] \<and>
      users_cycle s2 = Some ([JNum 1], []) \<and>
      queries s3 = [UsersQ (Some [JNum 1]) None, UsersQ (Some [JNum 2]) None] \<and>
      queries s4 = [UsersQ (Some [JNum 1]) None, UsersQ (Some [JNum 2]) None] \<and>
      settled s4 = [(0, Fulfilled (PUser n1)), (1, Fulfilled (PUser n2))] \<and>
      \<not> loading_users s4"
  by (simp add: init_def getUserBasic_def loadUsers_def loadUsers_resume_def register_def
        select_ids_def select_logins_def or_null_def fulfil_def fan_out_def resolve_key_def
        Let_def)

subsection \<open>Malformed tag nodes\<close>

lemma memorizeTag_malformed:
  "node = None \<or> (\<exists>n. node = Some n \<and>
     (\<not> truthy (tn_id n) \<or> \<not> truthy (tn_tagName n) \<or> \<not> truthy (tn_localizedName n)))
   \<Longrightarrow> memorizeTag node dispatch s = (None, s)"
  by (auto simp: memorizeTag_def)

text \<open>
  C7. The claim asks that a malformed node in the response of \<^verbatim>\<open>_loadTags\<close> be
  ignored without an error. \<^verbatim>\<open>memorizeTag\<close> does return without storing, but
  \<^verbatim>\<open>_loadTags\<close> then reads \<^verbatim>\<open>tag.id\<close> of the \<^verbatim>\<open>undefined\<close> it got back: a TypeError
  ends the cycle, the waiter is never settled and the flag stays set.
\<close>

theorem loadTags_malformed_node_throws:
  "let bad = \<lparr>tn_id = JNum 5, tn_tagName = JNull, tn_localizedName = JStr ''Five'',
              tn_localizedDescription = JNull, tn_isAutomated = JNull,
              tn_isLanguageTag = JNull, tn_scope = JNull\<rparr>;
       s0 = loadTags_timeout (getTag 0 (JNum 5) True init)
   in tags_cycle s0 = Some [JNum 5] \<and>
      waiting_tags s0 = [(JNum 5, [0])] \<and>
      memorizeTag (Some bad) False s0 = (None, s0) \<and>
      loadTags_resume (Some [Some bad]) s0 = (Some TypeError, s0\<lparr>tags_cycle := None\<rparr>) \<and>
      loadTags_resume (Some [None]) s0 = (Some TypeError, s0\<lparr>tags_cycle := None\<rparr>) \<and>
      loading_tags (snd (loadTags_resume (Some [Some bad]) s0)) \<and>
      settled (snd (loadTags_resume (Some [Some bad]) s0)) = []"
  by (simp add: init_def getTag_def tag_key_def loadTags_def loadTags_body_def
        loadTags_timeout_def loadTags_resume_def memorizeTag_def Let_def)

theorem loadTags_malformed_node_throws_witness:
  "fst (loadTags_resume
          (Some [Some \<lparr>tn_id = JNum 5, tn_tagName = JNull, tn_localizedName = JStr ''Five'',
                       tn_localizedDescription = JNull, tn_isAutomated = JNull,
                       tn_isLanguageTag = JNull, tn_scope = JNull\<rparr>])
          (loadTags_timeout (getTag 0 (JNum 5) True init))) = Some TypeError"
  using loadTags_malformed_node_throws by (simp add: Let_def)

subsection \<open>A failed query\<close>

lemma reject_keys_log:
  "\<exists>ext. snd (snd (reject_keys e ks (m, lg))) = lg @ ext"
proof (induction ks arbitrary: m lg)
  case Nil
  then show ?case by simp
next
  case (Cons a ks)
  show ?case
  proof (cases "map_of m a")
    case None
    then show ?thesis by simp
  next
    case (Some ps)
    from Cons.IH [of "AList.delete a m" "reject e ps lg"]
    obtain ext where "snd (snd (reject_keys e ks (AList.delete a m, reject e ps lg)))
        = reject e ps lg @ ext" ..
    with Some show ?thesis by (simp add: reject_def)
  qed
qed

lemma reject_keys_ok:
  "distinct ks \<Longrightarrow> \<forall>k\<in>set ks. map_of m k \<noteq> None \<Longrightarrow> fst (reject_keys e ks (m, lg)) = None"
proof (induction ks arbitrary: m lg)
  case Nil
  then show ?case by simp
next
  case (Cons a ks)
  from Cons.prems(2) obtain qs where qs: "map_of m a = Some qs" by auto
  have "\<forall>k\<in>set ks. map_of (AList.delete a m) k \<noteq> None"
    using Cons.prems by (auto simp: delete_conv')
  with Cons.IH [of "AList.delete a m" "reject e qs lg"] Cons.prems(1) qs show ?case by simp
qed

lemma reject_keys_removed:
  "distinct ks \<Longrightarrow> \<forall>k\<in>set ks. map_of m k \<noteq> None \<Longrightarrow>
     map_of (fst (snd (reject_keys e ks (m, lg)))) k = (if k \<in> set ks then None else map_of m k)"
proof (induction ks arbitrary: m lg)
  case Nil
  then show ?case by simp
next
  case (Cons a ks)
  from Cons.prems(2) obtain qs where qs: "map_of m a = Some qs" by auto
  have "\<forall>k\<in>set ks. map_of (AList.delete a m) k \<noteq> None"
    using Cons.prems by (auto simp: delete_conv')
  with Cons.IH [of "AList.delete a m" "reject e qs lg"] Cons.prems(1) qs show ?case
    by (auto simp: delete_conv')
qed

lemma reject_keys_rejected:
  "distinct ks \<Longrightarrow> \<forall>k\<in>set ks. map_of m k \<noteq> None \<Longrightarrow>
   k \<in> set ks \<Longrightarrow> map_of m k = Some ps \<Longrightarrow> w \<in> set ps \<Longrightarrow>
     (w, Rejected e) \<in> set (snd (snd (reject_keys e ks (m, lg))))"
proof (induction ks arbitrary: m lg)
  case Nil
  then show ?case by simp
next
  case (Cons a ks)
  from Cons.prems(2) obtain qs where qs: "map_of m a = Some qs" by auto
  have d: "distinct ks" using Cons.prems(1) by simp
  have p: "\<forall>k\<in>set ks. map_of (AList.delete a m) k \<noteq> None"
    using Cons.prems(1,2) by (auto simp: delete_conv')
  show ?case
  proof (cases "a = k")
    case True
    from reject_keys_log [of e ks "AList.delete a m" "reject e qs lg"]
    obtain ext where "snd (snd (reject_keys e ks (AList.delete a m, reject e qs lg)))
        = reject e qs lg @ ext" ..
    with True qs Cons.prems(4,5) show ?thesis by (auto simp: reject_def)
  next
    case False
    with Cons.prems have "k \<in> set ks" "map_of (AList.delete a m) k = Some ps"
      by (auto simp: delete_conv')
    from Cons.IH [OF d p this Cons.prems(5)] qs show ?thesis by simp
  qed
qed

lemma catch_keeps_cache:
  "tag_cache (snd (loadUsers_catch err s)) = tag_cache s"
  "tag_cache (snd (loadStreams_catch err s)) = tag_cache s"
  "tag_cache (snd (loadTags_catch err s)) = tag_cache s"
  by (auto simp: loadUsers_catch_def loadStreams_catch_def loadTags_catch_def
           split: option.splits prod.splits)

text \<open>
  While every selected key is still registered when the query fails, the
  \<^verbatim>\<open>catch\<close> blocks do what the claim says: they raise nothing, every waiter of
  every selected key is rejected with the error, the other keys keep their
  waiters, and the cache is not touched.
\<close>

lemma loadUsers_catch_rejects:
  assumes c: "users_cycle s = Some (ids, logins)"
      and d: "distinct ids" "distinct logins"
      and p: "\<forall>k\<in>set ids. map_of (waiting_user_ids s) k \<noteq> None"
             "\<forall>k\<in>set logins. map_of (waiting_user_logins s) k \<noteq> None"
  shows "fst (loadUsers_catch err s) = None"
    and "map_of (waiting_user_ids (snd (loadUsers_catch err s))) k =
           (if k \<in> set ids then None else map_of (waiting_user_ids s) k)"
    and "map_of (waiting_user_logins (snd (loadUsers_catch err s))) k =
           (if k \<in> set logins then None else map_of (waiting_user_logins s) k)"
    and "k \<in> set ids \<Longrightarrow> map_of (waiting_user_ids s) k = Some ps \<Longrightarrow> w \<in> set ps \<Longrightarrow>
           (w, Rejected err) \<in> set (settled (snd (loadUsers_catch err s)))"
    and "k \<in> set logins \<Longrightarrow> map_of (waiting_user_logins s) k = Some ps \<Longrightarrow> w \<in> set ps \<Longrightarrow>
           (w, Rejected err) \<in> set (settled (snd (loadUsers_catch err s)))"
    and "tag_cache (snd (loadUsers_catch err s)) = tag_cache s"
proof -
  obtain wi lg where r1:
    "reject_keys err ids (waiting_user_ids s, settled s) = (None, wi, lg)"
    using reject_keys_ok [OF d(1) p(1), of err "settled s"]
    by (cases "reject_keys err ids (waiting_user_ids s, settled s)") auto
  obtain wl lg' where r2: "reject_keys err logins (waiting_user_logins s, lg) = (None, wl, lg')"
    using reject_keys_ok [OF d(2) p(2), of err lg]
    by (cases "reject_keys err logins (waiting_user_logins s, lg)") auto
  have r: "loadUsers_catch err s = (None, s\<lparr> waiting_user_ids := wi, waiting_user_logins := wl,
                           settled := lg', users_cycle := None \<rparr>)"
    using c r1 r2 by (simp add: loadUsers_catch_def)
  from reject_keys_log [of err logins "waiting_user_logins s" lg] r2
  obtain ext where ext: "lg' = lg @ ext" by auto
  show "fst (loadUsers_catch err s) = None" by (simp add: r)
  show "map_of (waiting_user_ids (snd (loadUsers_catch err s))) k =
           (if k \<in> set ids then None else map_of (waiting_user_ids s) k)"
    using reject_keys_removed [OF d(1) p(1), of err "settled s" k] r1 by (simp add: r)
  show "map_of (waiting_user_logins (snd (loadUsers_catch err s))) k =
           (if k \<in> set logins then None else map_of (waiting_user_logins s) k)"
    using reject_keys_removed [OF d(2) p(2), of err lg k] r2 by (simp add: r)
  show "(w, Rejected err) \<in> set (settled (snd (loadUsers_catch err s)))"
    if "k \<in> set ids" "map_of (waiting_user_ids s) k = Some ps" "w \<in> set ps"
    using reject_keys_rejected [OF d(1) p(1) that, of err "settled s"] r1 ext by (simp add: r)
  show "(w, Rejected err) \<in> set (settled (snd (loadUsers_catch err s)))"
    if "k \<in> set logins" "map_of (waiting_user_logins s) k = Some ps" "w \<in> set ps"
    using reject_keys_rejected [OF d(2) p(2) that, of err lg] r2 by (simp add: r)
  show "tag_cache (snd (loadUsers_catch err s)) = tag_cache s" by (simp add: r)
qed

lemma loadTags_catch_rejects:
  assumes c: "tags_cycle s = Some ids"
      and d: "distinct ids"
      and p: "\<forall>k\<in>set ids. map_of (waiting_tags s) k \<noteq> None"
  shows "fst (loadTags_catch err s) = None"
    and "map_of (waiting_tags (snd (loadTags_catch err s))) k =
           (if k \<in> set ids then None else map_of (waiting_tags s) k)"
    and "k \<in> set ids \<Longrightarrow> map_of (waiting_tags s) k = Some ps \<Longrightarrow> w \<in> set ps \<Longrightarrow>
           (w, Rejected err) \<in> set (settled (snd (loadTags_catch err s)))"
    and "tag_cache (snd (loadTags_catch err s)) = tag_cache s"
proof -
  obtain wt lg where r1: "reject_keys err ids (waiting_tags s, settled s) = (None, wt, lg)"
    using reject_keys_ok [OF d p, of err "settled s"]
    by (cases "reject_keys err ids (waiting_tags s, settled s)") auto
  have r: "loadTags_catch err s = (None, s\<lparr> waiting_tags := wt, settled := lg, tags_cycle := None \<rparr>)"
    using c r1 by (simp add: loadTags_catch_def)
  show "fst (loadTags_catch err s) = None" by (simp add: r)
  show "map_of (waiting_tags (snd (loadTags_catch err s))) k =
           (if k \<in> set ids then None else map_of (waiting_tags s) k)"
    using reject_keys_removed [OF d p, of err "settled s" k] r1 by (simp add: r)
  show "(w, Rejected err) \<in> set (settled (snd (loadTags_catch err s)))"
    if "k \<in> set ids" "map_of (waiting_tags s) k = Some ps" "w \<in> set ps"
    using reject_keys_rejected [OF d p that, of err "settled s"] r1 by (simp add: r)
  show "tag_cache (snd (loadTags_catch err s)) = tag_cache s" by (simp add: r)
qed

lemma loadStreams_catch_rejects:
  assumes c: "streams_cycle s = Some (ids, logins)"
      and d: "distinct ids" "distinct logins"
      and p: "\<forall>k\<in>set ids. map_of (waiting_stream_ids s) k \<noteq> None"
             "\<forall>k\<in>set logins. map_of (waiting_stream_logins s) k \<noteq> None"
  shows "fst (loadStreams_catch err s) = None"
    and "map_of (waiting_stream_ids (snd (loadStreams_catch err s))) k =
           (if k \<in> set ids then None else map_of (waiting_stream_ids s) k)"
    and "map_of (waiting_stream_logins (snd (loadStreams_catch err s))) k =
           (if k \<in> set logins then None else map_of (waiting_stream_logins s) k)"
    and "k \<in> set ids \<Longrightarrow> map_of (waiting_stream_ids s) k = Some ps \<Longrightarrow> w \<in> set ps \<Longrightarrow>
           (w, Rejected err) \<in> set (settled (snd (loadStreams_catch err s)))"
    and "k \<in> set logins \<Longrightarrow> map_of (waiting_stream_logins s) k = Some ps \<Longrightarrow> w \<in> set ps \<Longrightarrow>
           (w, Rejected err) \<in> set (settled (snd (loadStreams_catch err s)))"
    and "tag_cache (snd (loadStreams_catch err s)) = tag_cache s"
proof -
  obtain wi lg where r1:
    "reject_keys err ids (waiting_stream_ids s, settled s) = (None, wi, lg)"
    using reject_keys_ok [OF d(1) p(1), of err "settled s"]
    by (cases "reject_keys err ids (waiting_stream_ids s, settled s)") auto
  obtain wl lg' where r2: "reject_keys err logins (waiting_stream_logins s, lg) = (None, wl, lg')"
    using reject_keys_ok [OF d(2) p(2), of err lg]
    by (cases "reject_keys err logins (waiting_stream_logins s, lg)") auto
  have r: "loadStreams_catch err s = (None, s\<lparr> waiting_stream_ids := wi, waiting_stream_logins := wl,
                           settled := lg', streams_cycle := None \<rparr>)"
    using c r1 r2 by (simp add: loadStreams_catch_def)
  from reject_keys_log [of err logins "waiting_stream_logins s" lg] r2
  obtain ext where ext: "lg' = lg @ ext" by auto
  show "fst (loadStreams_catch err s) = None" by (simp add: r)
  show "map_of (waiting_stream_ids (snd (loadStreams_catch err s))) k =
           (if k \<in> set ids then None else map_of (waiting_stream_ids s) k)"
    using reject_keys_removed [OF d(1) p(1), of err "settled s" k] r1 by (simp add: r)
  show "map_of (waiting_stream_logins (snd (loadStreams_catch err s))) k =
           (if k \<in> set logins then None else map_of (waiting_stream_logins s) k)"
    using reject_keys_removed [OF d(2) p(2), of err lg k] r2 by (simp add: r)
  show "(w, Rejected err) \<in> set (settled (snd (loadStreams_catch err s)))"
    if "k \<in> set ids" "map_of (waiting_stream_ids s) k = Some ps" "w \<in> set ps"
    using reject_keys_rejected [OF d(1) p(1) that, of err "settled s"] r1 ext by (simp add: r)
  show "(w, Rejected err) \<in> set (settled (snd (loadStreams_catch err s)))"
    if "k \<in> set logins" "map_of (waiting_stream_logins s) k = Some ps" "w \<in> set ps"
    using reject_keys_rejected [OF d(2) p(2) that, of err lg] r2 by (simp add: r)
  show "tag_cache (snd (loadStreams_catch err s)) = tag_cache s" by (simp add: r)
qed

text \<open>
  C3. The claim asks that a failed query reject every waiter of every selected
  key. The \<^verbatim>\<open>catch\<close> block of \<^verbatim>\<open>_loadTags\<close> iterates \<^verbatim>\<open>_waiting_tags.get(id)\<close>
  unguarded. Tags 5 and 6 are selected; while the query is in flight the result
  of \<^verbatim>\<open>getTopTags\<close> brings tag 5 with a description, and \<^verbatim>\<open>memorizeTag\<close> settles and
  removes key 5; the query then fails: the block throws a TypeError at key 5 and
  the waiter of key 6 is never rejected.
\<close>

theorem loadTags_catch_throws:
  "let n5 = \<lparr>tn_id = JNum 5, tn_tagName = JStr ''five'', tn_localizedName = JStr ''Five'',
             tn_localizedDescription = JStr ''The fifth tag'', tn_isAutomated = JNull,
             tn_isLanguageTag = JNull, tn_scope = JNull\<rparr>;
       s0 = loadTags_timeout (getTag 1 (JNum 6) True (getTag 0 (JNum 5) True init));
       s1 = snd (getTopTags_resume (Some [Some n5]) s0);
       r = loadTags_catch (Thrown 0) s1
   in tags_cycle s0 = Some [JNum 5, JNum 6] \<and>
      waiting_tags s0 = [(JNum 5, [0]), (JNum 6, [1])] \<and>
      waiting_tags s1 = [(JNum 6, [1])] \<and>
      tags_cycle s1 = Some [JNum 5, JNum 6] \<and>
      fst r = Some TypeError \<and>
      waiting_tags (snd r) = [(JNum 6, [1])] \<and>
      settled (snd r) = settled s1 \<and>
      (1, Rejected (Thrown 0)) \<notin> set (settled (snd r))"
  by (simp add: init_def getTag_def tag_key_def loadTags_def loadTags_body_def
        loadTags_timeout_def loadTags_catch_def getTopTags_resume_def memorizeTag_def
        new_tag_def present_def map_has_def fulfil_def Let_def)

theorem loadTags_catch_throws_witness:
  "fst (loadTags_catch (Thrown 0)
          (snd (getTopTags_resume
             (Some [Some \<lparr>tn_id = JNum 5, tn_tagName = JStr ''five'',
                          tn_localizedName = JStr ''Five'',
                          tn_localizedDescription = JStr ''The fifth tag'',
                          tn_isAutomated = JNull, tn_isLanguageTag = JNull, tn_scope = JNull\<rparr>])
             (loadTags_timeout (getTag 1 (JNum 6) True (getTag 0 (JNum 5) True init))))))
     = Some TypeError"
  using loadTags_catch_throws by (simp add: Let_def)

subsection \<open>Invalid keys\<close>

text \<open>
  C6, as the claim states it, fails: a call that gives both an id and a login is
  not rejected but joins the id registry and starts a cycle; and a call that
  gives neither is rejected, yet \<^verbatim>\<open>_loadUsers\<close> is still called and sends a query
  with no key.
\<close>

theorem getUserBasic_both_counterexample:
  "let s = getUserBasic 0 (JNum 1) (JStr ''foo'') init;
       t = getUserBasic 0 JNull JNull init
   in settled s = [] \<and>
      waiting_user_ids s = [(JNum 1, [0])] \<and>
      queries s = [UsersQ (Some [JNum 1]) None] \<and>
      settled t = [(0, Rejected (Message ''id and login cannot both be null''))] \<and>
      loading_users t \<and>
      queries t = [UsersQ None None]"
  by (simp add: init_def getUserBasic_def loadUsers_def register_def
        select_ids_def select_logins_def or_null_def reject_def Let_def)

text \<open>
  C6, amended. A call of \<^verbatim>\<open>getUserBasic\<close> or \<^verbatim>\<open>getStreamMeta\<close> in which neither id
  nor login is given (both falsy) is rejected at once with the message
  \<^verbatim>\<open>id and login cannot both be null\<close> and registers no waiter; a call that gives an
  id is registered under the id, whether or not a login is given too, and a call
  that gives only a login is registered under the login; neither is rejected.
\<close>

theorem invalid_key_rejected:
  "(\<not> truthy ident \<and> \<not> truthy login \<longrightarrow>
      settled (getUserBasic w ident login s) =
        settled s @ [(w, Rejected (Message ''id and login cannot both be null''))] \<and>
      waiting_user_ids (getUserBasic w ident login s) = waiting_user_ids s \<and>
      waiting_user_logins (getUserBasic w ident login s) = waiting_user_logins s \<and>
      settled (getStreamMeta w ident login s) =
        settled s @ [(w, Rejected (Message ''id and login cannot both be null''))] \<and>
      waiting_stream_ids (getStreamMeta w ident login s) = waiting_stream_ids s \<and>
      waiting_stream_logins (getStreamMeta w ident login s) = waiting_stream_logins s) \<and>
   (truthy ident \<longrightarrow>
      settled (getUserBasic w ident login s) = settled s \<and>
      waiting_user_ids (getUserBasic w ident login s) = register ident w (waiting_user_ids s) \<and>
      waiting_user_logins (getUserBasic w ident login s) = waiting_user_logins s \<and>
      settled (getStreamMeta w ident login s) = settled s \<and>
      waiting_stream_ids (getStreamMeta w ident login s) = register ident w (waiting_stream_ids s) \<and>
      waiting_stream_logins (getStreamMeta w ident login s) = waiting_stream_logins s) \<and>
   (\<not> truthy ident \<and> truthy login \<longrightarrow>
      settled (getUserBasic w ident login s) = settled s \<and>
      waiting_user_ids (getUserBasic w ident login s) = waiting_user_ids s \<and>
      waiting_user_logins (getUserBasic w ident login s) = register login w (waiting_user_logins s) \<and>
      settled (getStreamMeta w ident login s) = settled s \<and>
      waiting_stream_ids (getStreamMeta w ident login s) = waiting_stream_ids s \<and>
      waiting_stream_logins (getStreamMeta w ident login s) = register login w (waiting_stream_logins s))"
  by (simp add: getUserBasic_def getStreamMeta_def loadUsers_def loadStreams_def Let_def reject_def)

theorem invalid_key_rejected_witness:
  "settled (getUserBasic 0 JNull (JStr []) init) =
     [(0, Rejected (Message ''id and login cannot both be null''))] \<and>
   waiting_user_ids (getUserBasic 0 JNull (JStr []) init) = [] \<and>
   waiting_user_logins (getUserBasic 0 JNull (JStr []) init) = [] \<and>
   settled (getStreamMeta 0 (JNum 0) JNull init) =
     [(0, Rejected (Message ''id and login cannot both be null''))] \<and>
   waiting_stream_ids (getStreamMeta 0 (JNum 0) JNull init) = [] \<and>
   waiting_stream_logins (getStreamMeta 0 (JNum 0) JNull init) = [] \<and>
   settled (getUserBasic 0 (JNum 1) (JStr ''foo'') init) = [] \<and>
   waiting_user_ids (getUserBasic 0 (JNum 1) (JStr ''foo'') init) = [(JNum 1, [0])] \<and>
   waiting_user_logins (getUserBasic 0 (JNum 1) (JStr ''foo'') init) = [] \<and>
   settled (getStreamMeta 0 JNull (JStr ''foo'') init) = [] \<and>
   waiting_stream_logins (getStreamMeta 0 JNull (JStr ''foo'') init) = [(JStr ''foo'', [0])]"
  using invalid_key_rejected [of JNull "JStr []" 0 init]
        invalid_key_rejected [of "JNum 0" JNull 0 init]
        invalid_key_rejected [of "JNum 1" "JStr ''foo''" 0 init]
        invalid_key_rejected [of JNull "JStr ''foo''" 0 init]
  by (simp add: init_def register_def)

subsection \<open>The tag cache\<close>

lemma memorizeTag_cache:
  "tag_cache (snd (memorizeTag node d s)) =
     (case node of
        None \<Rightarrow> tag_cache s
      | Some n \<Rightarrow>
          if well_formed n then
            AList.update (tn_id n)
              ((case map_of (tag_cache s) (tn_id n) of Some t \<Rightarrow> t | None \<Rightarrow> new_tag n)
                 \<lparr> label := Some (tn_localizedName n),
                   description :=
                     (if truthy (tn_localizedDescription n)
                      then Some (tn_localizedDescription n)
                      else description
                        (case map_of (tag_cache s) (tn_id n) of Some t \<Rightarrow> t | None \<Rightarrow> new_tag n)) \<rparr>)
              (tag_cache s)
          else tag_cache s)"
  by (auto simp: memorizeTag_def well_formed_def Let_def split: option.splits)

lemma memorizeTag_result:
  "fst (memorizeTag node d s) =
     (case node of
        None \<Rightarrow> None
      | Some n \<Rightarrow>
          if well_formed n then
            Some ((case map_of (tag_cache s) (tn_id n) of Some t \<Rightarrow> t | None \<Rightarrow> new_tag n)
                 \<lparr> label := Some (tn_localizedName n),
                   description :=
                     (if truthy (tn_localizedDescription n)
                      then Some (tn_localizedDescription n)
                      else description
                        (case map_of (tag_cache s) (tn_id n) of Some t \<Rightarrow> t | None \<Rightarrow> new_tag n)) \<rparr>)
          else None)"
  by (auto simp: memorizeTag_def well_formed_def Let_def split: option.splits)

text \<open>
  C8. \<^verbatim>\<open>memorizeTag\<close> is idempotent and monotonic: a second call with the same
  node leaves the cache, and the record it returns, as the first call left them;
  no call removes a cache entry, or a label or description that an entry has, and
  a node without a description leaves every description as it is; in particular
  a description stored from one node survives a later node of the same id that
  has none.
\<close>

theorem memorizeTag_idempotent_monotonic:
  "tag_cache (snd (memorizeTag node d2 (snd (memorizeTag node d1 s)))) =
     tag_cache (snd (memorizeTag node d1 s)) \<and>
   fst (memorizeTag node d2 (snd (memorizeTag node d1 s))) = fst (memorizeTag node d1 s) \<and>
   (\<forall>k t. map_of (tag_cache s) k = Some t \<longrightarrow>
      (\<exists>t'. map_of (tag_cache (snd (memorizeTag node d1 s))) k = Some t' \<and>
            (present (label t) \<longrightarrow> present (label t')) \<and>
            (present (description t) \<longrightarrow> present (description t')) \<and>
            ((\<forall>n. node = Some n \<longrightarrow> \<not> truthy (tn_localizedDescription n)) \<longrightarrow>
               description t' = description t))) \<and>
   (\<forall>n m. node = Some n \<and> well_formed n \<and> truthy (tn_localizedDescription n) \<and>
          tn_id m = tn_id n \<and> \<not> truthy (tn_localizedDescription m) \<longrightarrow>
      map_option description
        (map_of (tag_cache (snd (memorizeTag (Some m) d2 (snd (memorizeTag node d1 s))))) (tn_id n)) =
      Some (Some (tn_localizedDescription n)))"
  apply (intro conjI allI impI)
  subgoal by (auto simp: memorizeTag_cache update_conv' split: option.splits)
  subgoal by (auto simp: memorizeTag_result memorizeTag_cache update_conv' split: option.splits)
  subgoal for k t
    by (auto simp: memorizeTag_cache update_conv' present_def well_formed_def split: option.splits)
  subgoal for n m
    by (auto simp: memorizeTag_cache update_conv' split: option.splits)
  done

theorem memorizeTag_idempotent_monotonic_witness:
  "tag_cache
     (snd (memorizeTag
        (Some \<lparr>tn_id = JNum 5, tn_tagName = JStr ''five'', tn_localizedName = JStr ''Five'',
               tn_localizedDescription = JStr ''The fifth tag'', tn_isAutomated = JNull,
               tn_isLanguageTag = JNull, tn_scope = JNull\<rparr>) True
        (snd (memorizeTag
           (Some \<lparr>tn_id = JNum 5, tn_tagName = JStr ''five'', tn_localizedName = JStr ''Five'',
                  tn_localizedDescription = JStr ''The fifth tag'', tn_isAutomated = JNull,
                  tn_isLanguageTag = JNull, tn_scope = JNull\<rparr>) True init)))) =
   tag_cache
     (snd (memorizeTag
        (Some \<lparr>tn_id = JNum 5, tn_tagName = JStr ''five'', tn_localizedName = JStr ''Five'',
               tn_localizedDescription = JStr ''The fifth tag'', tn_isAutomated = JNull,
               tn_isLanguageTag = JNull, tn_scope = JNull\<rparr>) True init)) \<and>
   map_option description
     (map_of (tag_cache
        (snd (memorizeTag
           (Some \<lparr>tn_id = JNum 5, tn_tagName = JStr ''five'', tn_localizedName = JStr ''Five'',
                  tn_localizedDescription = JNull, tn_isAutomated = JNull,
                  tn_isLanguageTag = JNull, tn_scope = JNull\<rparr>) True
           (snd (memorizeTag
              (Some \<lparr>tn_id = JNum 5, tn_tagName = JStr ''five'', tn_localizedName = JStr ''Five'',
                     tn_localizedDescription = JStr ''The fifth tag'', tn_isAutomated = JNull,
                     tn_isLanguageTag = JNull, tn_scope = JNull\<rparr>) True init))))) (JNum 5)) =
   Some (Some (JStr ''The fifth tag''))"
  using memorizeTag_idempotent_monotonic
    [of "Some \<lparr>tn_id = JNum 5, tn_tagName = JStr ''five'', tn_localizedName = JStr ''Five'',
               tn_localizedDescription = JStr ''The fifth tag'', tn_isAutomated = JNull,
               tn_isLanguageTag = JNull, tn_scope = JNull\<rparr>" True True init]
  by (simp add: well_formed_def)

text \<open>
  C9. For a cached tag without a description, \<^verbatim>\<open>getTag(id, false)\<close> only fulfils
  the caller with the cached record: the registry, the timer and the queries
  stay as they are. \<^verbatim>\<open>getTag(id, true)\<close> settles nothing and sends nothing at
  once; it appends the caller to the waiters of the id, and for an id not yet
  waiting, with no cycle running, it arms the timer of \<^verbatim>\<open>_loadTags\<close>, whose cycle
  then sends the query for the first 50 waiting ids.
\<close>

theorem getTag_cached_without_description:
  "map_of (tag_cache s) (tag_key ident) = Some out \<and> \<not> present (description out) \<longrightarrow>
     getTag w ident False s = s\<lparr> settled := settled s @ [(w, Fulfilled (PTag out))] \<rparr> \<and>
     settled (getTag w ident True s) = settled s \<and>
     queries (getTag w ident True s) = queries s \<and>
     map_of (waiting_tags (getTag w ident True s)) (tag_key ident) =
       Some ((case map_of (waiting_tags s) (tag_key ident) of Some ps \<Rightarrow> ps | None \<Rightarrow> []) @ [w]) \<and>
     (\<not> loading_tags s \<and> map_of (waiting_tags s) (tag_key ident) = None \<longrightarrow>
        tags_timer (getTag w ident True s) \<and>
        tag_key ident \<in> set (map fst (waiting_tags (getTag w ident True s))) \<and>
        queries (loadTags_timeout (getTag w ident True s)) =
          queries s @ [TagsQ (take 50 (map fst (waiting_tags (getTag w ident True s))))])"
  by (auto simp: getTag_def fulfil_def loadTags_def loadTags_timeout_def loadTags_body_def
        update_conv' Let_def dom_update split: option.splits)

theorem getTag_cached_without_description_witness:
  "(let n5 = \<lparr>tn_id = JNum 5, tn_tagName = JStr ''five'', tn_localizedName = JStr ''Five'',
              tn_localizedDescription = JNull, tn_isAutomated = JNull,
              tn_isLanguageTag = JNull, tn_scope = JNull\<rparr>;
        s = snd (memorizeTag (Some n5) True init)
    in settled (getTag 0 (JNum 5) False s) =
         [(0, Fulfilled (PTag ((new_tag n5)\<lparr> label := Some (JStr ''Five'') \<rparr>)))] \<and>
       waiting_tags (getTag 0 (JNum 5) False s) = [] \<and>
       \<not> tags_timer (getTag 0 (JNum 5) False s) \<and>
       settled (getTag 0 (JNum 5) True s) = [] \<and>
       waiting_tags (getTag 0 (JNum 5) True s) = [(JNum 5, [0])] \<and>
       tags_timer (getTag 0 (JNum 5) True s) \<and>
       queries (loadTags_timeout (getTag 0 (JNum 5) True s)) = [TagsQ [JNum 5]])"
  using getTag_cached_without_description
    [of "snd (memorizeTag
           (Some \<lparr>tn_id = JNum 5, tn_tagName = JStr ''five'', tn_localizedName = JStr ''Five'',
                  tn_localizedDescription = JNull, tn_isAutomated = JNull,
                  tn_isLanguageTag = JNull, tn_scope = JNull\<rparr>) True init)"
        "JNum 5"
        "(new_tag \<lparr>tn_id = JNum 5, tn_tagName = JStr ''five'', tn_localizedName = JStr ''Five'',
                  tn_localizedDescription = JNull, tn_isAutomated = JNull,
                  tn_isLanguageTag = JNull, tn_scope = JNull\<rparr>)\<lparr> label := Some (JStr ''Five'') \<rparr>"
        0]
  by (simp add: init_def memorizeTag_def tag_key_def new_tag_def present_def getTag_def
        loadTags_def Let_def)

subsection \<open>Top tags\<close>

lemma memorizeTag_well_formed:
  "well_formed n \<Longrightarrow> cache_ok s \<Longrightarrow>
     \<exists>t. fst (memorizeTag (Some n) d s) = Some t \<and> tag_id t = tn_id n"
  by (auto simp: memorizeTag_def well_formed_def cache_ok_def Let_def new_tag_def list_all_iff
           split: option.splits dest!: map_of_SomeD)

lemma memorizeTag_not_well_formed:
  "\<not> well_formed n \<Longrightarrow> memorizeTag (Some n) d s = (None, s)"
  by (auto simp: memorizeTag_def well_formed_def)

lemma set_update_subset: "set (AList.update k v al) \<subseteq> insert (k, v) (set al)"
  by (induct al) auto

lemma cache_ok_init: "cache_ok init"
  by (simp add: cache_ok_def init_def)

lemma memorizeTag_cache_ok:
  assumes ok: "cache_ok s"
  shows "cache_ok (snd (memorizeTag node d s))"
proof -
  have upd: "list_all (\<lambda>(k, t). tag_id t = k) (AList.update k t (tag_cache s))"
    if "tag_id t = k" for k t
    using ok that set_update_subset [of k t "tag_cache s"]
    by (fastforce simp: cache_ok_def list_all_iff)
  have old: "tag_id t = k" if "map_of (tag_cache s) k = Some t" for k t
    using ok that by (auto simp: cache_ok_def list_all_iff dest!: map_of_SomeD)
  show ?thesis
    unfolding cache_ok_def memorizeTag_cache
    using ok by (auto simp: cache_ok_def new_tag_def intro!: upd dest: old split: option.splits)
qed

lemma filter_filter_absorb:
  "(\<And>x. P x \<Longrightarrow> Q x) \<Longrightarrow> filter P (filter Q xs) = filter P xs"
  by (induct xs) auto

lemma getTopTags_nodes_ids:
  "cache_ok s \<Longrightarrow>
   map (map_option tag_id) (fst (getTopTags_nodes nodes seen out s)) =
     map (map_option tag_id) out @
     map key_of (filter (\<lambda>n. tn_id n \<notin> set seen) (first_by_id (somes nodes)))"
proof (induction nodes seen out s rule: getTopTags_nodes.induct)
  case (1 seen out s)
  then show ?case by simp
next
  case (2 nodes seen out s)
  then show ?case by simp
next
  case (3 n nodes seen out s)
  show ?case
  proof (cases "tn_id n \<in> set seen")
    case True
    have "filter (\<lambda>m. tn_id m \<notin> set seen)
            (filter (\<lambda>m. tn_id m \<noteq> tn_id n) (first_by_id (somes nodes)))
          = filter (\<lambda>m. tn_id m \<notin> set seen) (first_by_id (somes nodes))"
      using True by (intro filter_filter_absorb) auto
    with True 3 show ?thesis by simp
  next
    case False
    obtain t s1 where m: "memorizeTag (Some n) True s = (t, s1)"
      by (cases "memorizeTag (Some n) True s")
    have ok1: "cache_ok s1"
      using memorizeTag_cache_ok [OF "3.prems", of "Some n" True] m by simp
    have t: "map_option tag_id t = key_of n"
    proof (cases "well_formed n")
      case True
      then show ?thesis
        using memorizeTag_well_formed [OF True "3.prems", of True] m by (auto simp: key_of_def)
    next
      case False
      then show ?thesis
        using memorizeTag_not_well_formed [OF False, of True s] m by (auto simp: key_of_def)
    qed
    have flt: "filter (\<lambda>m. tn_id m \<notin> set (seen @ [tn_id n])) (first_by_id (somes nodes))
          = filter (\<lambda>m. tn_id m \<notin> set seen)
              (filter (\<lambda>m. tn_id m \<noteq> tn_id n) (first_by_id (somes nodes)))"
      by (auto intro: filter_cong)
    from "3.IH"(2) [OF False m [symmetric] ok1] False m t flt show ?thesis by simp
  qed
qed

lemma map_filter_removeAll: "map f (filter (\<lambda>m. f m \<noteq> a) xs) = removeAll a (map f xs)"
  by (induct xs) auto

lemma first_by_id_ids: "map tn_id (first_by_id ns) = uniq (map tn_id ns)"
  by (induct ns) (auto simp: map_filter_removeAll)

lemma distinct_uniq: "distinct (uniq xs)"
  by (induct xs) (auto simp: distinct_removeAll)

lemma set_uniq: "set (uniq xs) = set xs"
  by (induct xs) auto

lemma somes_map_option: "somes (map (map_option f) xs) = map f (somes xs)"
  by (induct xs rule: somes.induct) auto

lemma somes_key_of: "somes (map key_of ns) = map tn_id (filter well_formed ns)"
  by (induct ns) (auto simp: key_of_def)

text \<open>
  C10. With every cache entry under its own id, the array that \<^verbatim>\<open>getTopTags\<close>
  returns has one entry for each distinct id among the nodes that are not null,
  in the order of the first node of each id: the stored tag of that id when the
  first node is well formed. No tag id shows twice.
\<close>

theorem getTopTags_one_entry_per_id:
  "cache_ok s \<longrightarrow>
     map (map_option tag_id) (fst (getTopTags_resume (Some nodes) s)) =
       map key_of (first_by_id (somes nodes)) \<and>
     map tn_id (first_by_id (somes nodes)) = uniq (map tn_id (somes nodes)) \<and>
     length (fst (getTopTags_resume (Some nodes) s)) = length (uniq (map tn_id (somes nodes))) \<and>
     distinct (map tag_id (somes (fst (getTopTags_resume (Some nodes) s))))"
proof
  assume ok: "cache_ok s"
  let ?out = "fst (getTopTags_resume (Some nodes) s)"
  have ids: "map (map_option tag_id) ?out = map key_of (first_by_id (somes nodes))"
    using getTopTags_nodes_ids [OF ok, of nodes "[]" "[]"] by (simp add: getTopTags_resume_def)
  have "length ?out = length (map (map_option tag_id) ?out)" by simp
  also have "\<dots> = length (map tn_id (first_by_id (somes nodes)))" by (simp add: ids)
  finally have len: "length ?out = length (uniq (map tn_id (somes nodes)))"
    by (simp add: first_by_id_ids)
  have "map tag_id (somes ?out) = somes (map (map_option tag_id) ?out)"
    by (simp add: somes_map_option)
  also have "\<dots> = map tn_id (filter well_formed (first_by_id (somes nodes)))"
    by (simp add: ids somes_key_of)
  finally have "distinct (map tag_id (somes ?out))"
    using distinct_uniq [of "map tn_id (somes nodes)"]
    by (simp add: first_by_id_ids [symmetric] distinct_map_filter)
  with ids len show "map (map_option tag_id) ?out = map key_of (first_by_id (somes nodes)) \<and>
     map tn_id (first_by_id (somes nodes)) = uniq (map tn_id (somes nodes)) \<and>
     length ?out = length (uniq (map tn_id (somes nodes))) \<and>
     distinct (map tag_id (somes ?out))"
    by (simp add: first_by_id_ids)
qed

theorem getTopTags_one_entry_per_id_witness:
  "(let n5 = \<lparr>tn_id = JNum 5, tn_tagName = JStr ''five'', tn_localizedName = JStr ''Five'',
              tn_localizedDescription = JNull, tn_isAutomated = JNull,
              tn_isLanguageTag = JNull, tn_scope = JNull\<rparr>;
        n6 = \<lparr>tn_id = JNum 6, tn_tagName = JStr ''six'', tn_localizedName = JStr ''Six'',
              tn_localizedDescription = JNull, tn_isAutomated = JNull,
              tn_isLanguageTag = JNull, tn_scope = JNull\<rparr>
    in map (map_option tag_id) (fst (getTopTags_resume (Some [Some n5, None, Some n6, Some n5]) init))
         = [Some (JNum 5), Some (JNum 6)])"
  using getTopTags_one_entry_per_id
    [of init "[Some \<lparr>tn_id = JNum 5, tn_tagName = JStr ''five'', tn_localizedName = JStr ''Five'',
              tn_localizedDescription = JNull, tn_isAutomated = JNull,
              tn_isLanguageTag = JNull, tn_scope = JNull\<rparr>, None,
        Some \<lparr>tn_id = JNum 6, tn_tagName = JStr ''six'', tn_localizedName = JStr ''Six'',
              tn_localizedDescription = JNull, tn_isAutomated = JNull,
              tn_isLanguageTag = JNull, tn_scope = JNull\<rparr>,
        Some \<lparr>tn_id = JNum 5, tn_tagName = JStr ''five'', tn_localizedName = JStr ''Five'',
              tn_localizedDescription = JNull, tn_isAutomated = JNull,
              tn_isLanguageTag = JNull, tn_scope = JNull\<rparr>]"]
  by (simp add: cache_ok_init key_of_def well_formed_def)

subsection \<open>A successful query\<close>

lemma resolve_key_eq:
  "resolve_key k v (m, lg) =
     (AList.delete k m,
      lg @ (case map_of m k of None \<Rightarrow> [] | Some ps \<Rightarrow> map (\<lambda>w. (w, Fulfilled v)) ps))"
proof (cases "map_of m k")
  case None
  then have "AList.delete k m = m" by (simp add: map_of_eq_None_iff)
  with None show ?thesis by (simp add: resolve_key_def)
next
  case (Some ps)
  then show ?thesis by (simp add: resolve_key_def fulfil_def)
qed

lemma resolve_missing_reg:
  "map_of (fst (resolve_missing ks (m, lg))) k = (if k \<in> set ks then None else map_of m k)"
  by (induction ks arbitrary: m lg) (auto simp: resolve_key_eq delete_conv')

lemma resolve_missing_log:
  "\<exists>ext. snd (resolve_missing ks (m, lg)) = lg @ ext"
proof (induction ks arbitrary: m lg)
  case Nil
  then show ?case by simp
next
  case (Cons a ks)
  let ?x = "case map_of m a of None \<Rightarrow> [] | Some ps \<Rightarrow> map (\<lambda>w. (w, Fulfilled (PVal JNull))) ps"
  from Cons.IH [of "AList.delete a m" "lg @ ?x"]
  obtain ext where "snd (resolve_missing ks (AList.delete a m, lg @ ?x)) = (lg @ ?x) @ ext" ..
  then show ?case by (simp add: resolve_key_eq)
qed

lemma resolve_missing_null:
  "k \<in> set ks \<Longrightarrow> map_of m k = Some ps \<Longrightarrow> w \<in> set ps \<Longrightarrow>
     (w, Fulfilled (PVal JNull)) \<in> set (snd (resolve_missing ks (m, lg)))"
proof (induction ks arbitrary: m lg)
  case Nil
  then show ?case by simp
next
  case (Cons a ks)
  show ?case
  proof (cases "a = k")
    case True
    obtain ext where "snd (resolve_missing ks (AList.delete k m, lg @ map (\<lambda>w. (w, Fulfilled (PVal JNull))) ps))
        = (lg @ map (\<lambda>w. (w, Fulfilled (PVal JNull))) ps) @ ext"
      using resolve_missing_log by blast
    with True Cons.prems show ?thesis by (auto simp: resolve_key_eq)
  next
    case False
    with Cons.prems have "k \<in> set ks" "map_of (AList.delete a m) k = Some ps"
      by (auto simp: delete_conv')
    from Cons.IH [OF this Cons.prems(3)] show ?thesis by (simp add: resolve_key_eq)
  qed
qed

lemma resolve_nodes_wi:
  "resolve_nodes f ns (is, ls, wi, wl, lg) = (is', ls', wi', wl', lg') \<Longrightarrow>
   map_of wi' k = (if find (\<lambda>n. truthy (node_id n) \<and> node_id n = k) (somes ns) \<noteq> None then None else map_of wi k)"
proof (induction ns arbitrary: "is" ls wi wl lg)
  case Nil
  then show ?case by simp
next
  case (Cons a ns)
  then show ?case
    by (cases a) (auto simp: resolve_key_eq delete_conv' split: if_splits)
qed


lemma resolve_nodes_wl:
  "resolve_nodes f ns (is, ls, wi, wl, lg) = (is', ls', wi', wl', lg') \<Longrightarrow>
   map_of wl' k = (if find (\<lambda>n. truthy (node_id n) \<and> node_login n = k) (somes ns) \<noteq> None then None else map_of wl k)"
proof (induction ns arbitrary: "is" ls wi wl lg)
  case Nil
  then show ?case by simp
next
  case (Cons a ns)
  then show ?case
    by (cases a) (auto simp: resolve_key_eq delete_conv' split: if_splits)
qed

lemma resolve_nodes_is:
  "resolve_nodes f ns (is, ls, wi, wl, lg) = (is', ls', wi', wl', lg') \<Longrightarrow>
   k \<in> set is' \<longleftrightarrow> k \<in> set is \<and> find (\<lambda>n. truthy (node_id n) \<and> node_id n = k) (somes ns) = None"
proof (induction ns arbitrary: "is" ls wi wl lg)
  case Nil
  then show ?case by simp
next
  case (Cons a ns)
  then show ?case
    by (cases a) (auto simp: resolve_key_eq split: if_splits)
qed

lemma resolve_nodes_ls:
  "resolve_nodes f ns (is, ls, wi, wl, lg) = (is', ls', wi', wl', lg') \<Longrightarrow>
   k \<in> set ls' \<longleftrightarrow> k \<in> set ls \<and> find (\<lambda>n. truthy (node_id n) \<and> node_login n = k) (somes ns) = None"
proof (induction ns arbitrary: "is" ls wi wl lg)
  case Nil
  then show ?case by simp
next
  case (Cons a ns)
  then show ?case
    by (cases a) (auto simp: resolve_key_eq split: if_splits)
qed

lemma resolve_nodes_log:
  "resolve_nodes f ns (is, ls, wi, wl, lg) = (is', ls', wi', wl', lg') \<Longrightarrow> \<exists>ext. lg' = lg @ ext"
proof (induction ns arbitrary: "is" ls wi wl lg)
  case Nil
  then show ?case by simp
next
  case (Cons a ns)
  show ?case
  proof (cases a)
    case None
    with Cons show ?thesis by simp
  next
    case (Some n)
    show ?thesis
    proof (cases "truthy (node_id n)")
      case False
      with Some Cons show ?thesis by simp
    next
      case True
      with Some Cons.prems obtain lg1 where
        "resolve_nodes f ns (removeAll (node_id n) is, removeAll (node_login n) ls,
           AList.delete (node_id n) wi, AList.delete (node_login n) wl, lg @ lg1)
         = (is', ls', wi', wl', lg')"
        by (auto simp: resolve_key_eq)
      from Cons.IH [OF this] show ?thesis by auto
    qed
  qed
qed

lemma resolve_nodes_id_hit:
  "resolve_nodes f ns (is, ls, wi, wl, lg) = (is', ls', wi', wl', lg') \<Longrightarrow>
   map_of wi k = Some ps \<Longrightarrow>
   find (\<lambda>n. truthy (node_id n) \<and> node_id n = k) (somes ns) = Some n \<Longrightarrow>
   w \<in> set ps \<Longrightarrow> (w, Fulfilled (f n)) \<in> set lg'"
proof (induction ns arbitrary: "is" ls wi wl lg)
  case Nil
  then show ?case by simp
next
  case (Cons a ns)
  show ?case
  proof (cases a)
    case None
    with Cons show ?thesis by simp
  next
    case (Some m)
    show ?thesis
    proof (cases "truthy (node_id m)")
      case False
      with Some Cons show ?thesis by simp
    next
      case True
      let ?x = "case map_of wi (node_id m) of None \<Rightarrow> [] | Some ps \<Rightarrow> map (\<lambda>w. (w, Fulfilled (f m))) ps"
      let ?y = "case map_of wl (node_login m) of None \<Rightarrow> [] | Some ps \<Rightarrow> map (\<lambda>w. (w, Fulfilled (f m))) ps"
      from True Some Cons.prems(1) have rest:
        "resolve_nodes f ns (removeAll (node_id m) is, removeAll (node_login m) ls,
           AList.delete (node_id m) wi, AList.delete (node_login m) wl, (lg @ ?x) @ ?y)
         = (is', ls', wi', wl', lg')"
        by (simp add: resolve_key_eq)
      show ?thesis
      proof (cases "node_id m = k")
        case True
        with \<open>truthy (node_id m)\<close> Some Cons.prems(3) have "n = m" by simp
        from resolve_nodes_log [OF rest] obtain ext where "lg' = ((lg @ ?x) @ ?y) @ ext" ..
        with True Cons.prems(2,4) \<open>n = m\<close> show ?thesis by auto
      next
        case False
        with Some Cons.prems have
          "map_of (AList.delete (node_id m) wi) k = Some ps"
          "find (\<lambda>n. truthy (node_id n) \<and> node_id n = k) (somes ns) = Some n"
          by (auto simp: delete_conv')
        from Cons.IH [OF rest this Cons.prems(4)] show ?thesis .
      qed
    qed
  qed
qed

lemma resolve_nodes_login_hit:
  "resolve_nodes f ns (is, ls, wi, wl, lg) = (is', ls', wi', wl', lg') \<Longrightarrow>
   map_of wl k = Some ps \<Longrightarrow>
   find (\<lambda>n. truthy (node_id n) \<and> node_login n = k) (somes ns) = Some n \<Longrightarrow>
   w \<in> set ps \<Longrightarrow> (w, Fulfilled (f n)) \<in> set lg'"
proof (induction ns arbitrary: "is" ls wi wl lg)
  case Nil
  then show ?case by simp
next
  case (Cons a ns)
  show ?case
  proof (cases a)
    case None
    with Cons show ?thesis by simp
  next
    case (Some m)
    show ?thesis
    proof (cases "truthy (node_id m)")
      case False
      with Some Cons show ?thesis by simp
    next
      case True
      let ?x = "case map_of wi (node_id m) of None \<Rightarrow> [] | Some ps \<Rightarrow> map (\<lambda>w. (w, Fulfilled (f m))) ps"
      let ?y = "case map_of wl (node_login m) of None \<Rightarrow> [] | Some ps \<Rightarrow> map (\<lambda>w. (w, Fulfilled (f m))) ps"
      from True Some Cons.prems(1) have rest:
        "resolve_nodes f ns (removeAll (node_id m) is, removeAll (node_login m) ls,
           AList.delete (node_id m) wi, AList.delete (node_login m) wl, (lg @ ?x) @ ?y)
         = (is', ls', wi', wl', lg')"
        by (simp add: resolve_key_eq)
      show ?thesis
      proof (cases "node_login m = k")
        case True
        with \<open>truthy (node_id m)\<close> Some Cons.prems(3) have "n = m" by simp
        from resolve_nodes_log [OF rest] obtain ext where "lg' = ((lg @ ?x) @ ?y) @ ext" ..
        with True Cons.prems(2,4) \<open>n = m\<close> show ?thesis by auto
      next
        case False
        with Some Cons.prems have
          "map_of (AList.delete (node_login m) wl) k = Some ps"
          "find (\<lambda>n. truthy (node_id n) \<and> node_login n = k) (somes ns) = Some n"
          by (auto simp: delete_conv')
        from Cons.IH [OF rest this Cons.prems(4)] show ?thesis .
      qed
    qed
  qed
qed


lemma fan_out_stage:
  assumes "(case nodes of
              Some ns \<Rightarrow> resolve_nodes f ns (uniq ids, uniq logins, wi, wl, lg)
            | None \<Rightarrow> (uniq ids, uniq logins, wi, wl, lg)) = (is1, ls1, wi1, wl1, lg1)"
  shows "map_of wi1 k = (if id_match nodes k \<noteq> None then None else map_of wi k)"
    and "map_of wl1 k = (if login_match nodes k \<noteq> None then None else map_of wl k)"
    and "k \<in> set is1 \<longleftrightarrow> k \<in> set ids \<and> id_match nodes k = None"
    and "k \<in> set ls1 \<longleftrightarrow> k \<in> set logins \<and> login_match nodes k = None"
    and "\<exists>ext. lg1 = lg @ ext"
    and "map_of wi k = Some ps \<Longrightarrow> id_match nodes k = Some n \<Longrightarrow> w \<in> set ps \<Longrightarrow>
           (w, Fulfilled (f n)) \<in> set lg1"
    and "map_of wl k = Some ps \<Longrightarrow> login_match nodes k = Some n \<Longrightarrow> w \<in> set ps \<Longrightarrow>
           (w, Fulfilled (f n)) \<in> set lg1"
proof -
  show "map_of wi1 k = (if id_match nodes k \<noteq> None then None else map_of wi k)"
    using assms resolve_nodes_wi [of f _ "uniq ids" "uniq logins" wi wl lg is1 ls1 wi1 wl1 lg1 k]
    by (cases nodes) (simp_all add: id_match_def)
  show "map_of wl1 k = (if login_match nodes k \<noteq> None then None else map_of wl k)"
    using assms resolve_nodes_wl [of f _ "uniq ids" "uniq logins" wi wl lg is1 ls1 wi1 wl1 lg1 k]
    by (cases nodes) (simp_all add: login_match_def)
  show "k \<in> set is1 \<longleftrightarrow> k \<in> set ids \<and> id_match nodes k = None"
    using assms resolve_nodes_is [of f _ "uniq ids" "uniq logins" wi wl lg is1 ls1 wi1 wl1 lg1 k]
    by (cases nodes) (auto simp: id_match_def set_uniq)
  show "k \<in> set ls1 \<longleftrightarrow> k \<in> set logins \<and> login_match nodes k = None"
    using assms resolve_nodes_ls [of f _ "uniq ids" "uniq logins" wi wl lg is1 ls1 wi1 wl1 lg1 k]
    by (cases nodes) (auto simp: login_match_def set_uniq)
  show "\<exists>ext. lg1 = lg @ ext"
    using assms resolve_nodes_log [of f _ "uniq ids" "uniq logins" wi wl lg is1 ls1 wi1 wl1 lg1]
    by (cases nodes) auto
  show "(w, Fulfilled (f n)) \<in> set lg1"
    if "map_of wi k = Some ps" "id_match nodes k = Some n" "w \<in> set ps"
    using assms that
      resolve_nodes_id_hit [of f _ "uniq ids" "uniq logins" wi wl lg is1 ls1 wi1 wl1 lg1 k ps n w]
    by (cases nodes) (auto simp: id_match_def)
  show "(w, Fulfilled (f n)) \<in> set lg1"
    if "map_of wl k = Some ps" "login_match nodes k = Some n" "w \<in> set ps"
    using assms that
      resolve_nodes_login_hit [of f _ "uniq ids" "uniq logins" wi wl lg is1 ls1 wi1 wl1 lg1 k ps n w]
    by (cases nodes) (auto simp: login_match_def)
qed

lemma fan_out_split:
  assumes "fan_out f nodes ids logins (wi, wl, lg) = (wi', wl', lg')"
  obtains is1 ls1 wi1 wl1 lg1 lg2 where
    "(case nodes of
        Some ns \<Rightarrow> resolve_nodes f ns (uniq ids, uniq logins, wi, wl, lg)
      | None \<Rightarrow> (uniq ids, uniq logins, wi, wl, lg)) = (is1, ls1, wi1, wl1, lg1)"
    "resolve_missing is1 (wi1, lg1) = (wi', lg2)"
    "resolve_missing ls1 (wl1, lg2) = (wl', lg')"
  using assms unfolding fan_out_def by (auto split: prod.splits)

lemma fan_out_props:
  assumes fo: "fan_out f nodes ids logins (wi, wl, lg) = (wi', wl', lg')"
  shows "map_of wi' k = (if id_match nodes k \<noteq> None \<or> k \<in> set ids then None else map_of wi k)"
    and "map_of wl' k = (if login_match nodes k \<noteq> None \<or> k \<in> set logins then None else map_of wl k)"
    and "\<exists>ext. lg' = lg @ ext"
    and "map_of wi k = Some ps \<Longrightarrow> w \<in> set ps \<Longrightarrow> id_match nodes k = Some n \<Longrightarrow>
           (w, Fulfilled (f n)) \<in> set lg'"
    and "map_of wi k = Some ps \<Longrightarrow> w \<in> set ps \<Longrightarrow> id_match nodes k = None \<Longrightarrow> k \<in> set ids \<Longrightarrow>
           (w, Fulfilled (PVal JNull)) \<in> set lg'"
    and "map_of wl k = Some ps \<Longrightarrow> w \<in> set ps \<Longrightarrow> login_match nodes k = Some n \<Longrightarrow>
           (w, Fulfilled (f n)) \<in> set lg'"
    and "map_of wl k = Some ps \<Longrightarrow> w \<in> set ps \<Longrightarrow> login_match nodes k = None \<Longrightarrow> k \<in> set logins \<Longrightarrow>
           (w, Fulfilled (PVal JNull)) \<in> set lg'"
proof -
  from fo obtain is1 ls1 wi1 wl1 lg1 lg2 where
    st: "(case nodes of
        Some ns \<Rightarrow> resolve_nodes f ns (uniq ids, uniq logins, wi, wl, lg)
      | None \<Rightarrow> (uniq ids, uniq logins, wi, wl, lg)) = (is1, ls1, wi1, wl1, lg1)"
    and m1: "resolve_missing is1 (wi1, lg1) = (wi', lg2)"
    and m2: "resolve_missing ls1 (wl1, lg2) = (wl', lg')"
    by (rule fan_out_split)
  note S = fan_out_stage [OF st]
  from resolve_missing_log [of is1 wi1 lg1] m1 obtain e2 where e2: "lg2 = lg1 @ e2" by auto
  from resolve_missing_log [of ls1 wl1 lg2] m2 obtain e3 where e3: "lg' = lg2 @ e3" by auto
  from S(5) obtain e1 where e1: "lg1 = lg @ e1" ..
  show "map_of wi' k = (if id_match nodes k \<noteq> None \<or> k \<in> set ids then None else map_of wi k)"
    using resolve_missing_reg [of is1 wi1 lg1 k] m1 S(1) [of k] S(3) [of k] by auto
  show "map_of wl' k = (if login_match nodes k \<noteq> None \<or> k \<in> set logins then None else map_of wl k)"
    using resolve_missing_reg [of ls1 wl1 lg2 k] m2 S(2) [of k] S(4) [of k] by auto
  show "\<exists>ext. lg' = lg @ ext" using e1 e2 e3 by simp
  show "(w, Fulfilled (f n)) \<in> set lg'"
    if "map_of wi k = Some ps" "w \<in> set ps" "id_match nodes k = Some n"
    using S(6) [OF that(1,3,2)] e2 e3 by simp
  show "(w, Fulfilled (f n)) \<in> set lg'"
    if "map_of wl k = Some ps" "w \<in> set ps" "login_match nodes k = Some n"
    using S(7) [OF that(1,3,2)] e2 e3 by simp
  show "(w, Fulfilled (PVal JNull)) \<in> set lg'"
    if "map_of wi k = Some ps" "w \<in> set ps" "id_match nodes k = None" "k \<in> set ids"
  proof -
    from that S(1) [of k] S(3) [of k] have "k \<in> set is1" "map_of wi1 k = Some ps" by auto
    from resolve_missing_null [OF this that(2), of lg1] m1 e3 show ?thesis by simp
  qed
  show "(w, Fulfilled (PVal JNull)) \<in> set lg'"
    if "map_of wl k = Some ps" "w \<in> set ps" "login_match nodes k = None" "k \<in> set logins"
  proof -
    from that S(2) [of k] S(4) [of k] have "k \<in> set ls1" "map_of wl1 k = Some ps" by auto
    from resolve_missing_null [OF this that(2), of lg2] m2 show ?thesis by simp
  qed
qed


lemma loadUsers_keeps:
  "waiting_user_ids (loadUsers s) = waiting_user_ids s"
  "waiting_user_logins (loadUsers s) = waiting_user_logins s"
  "settled (loadUsers s) = settled s"
  by (simp_all add: loadUsers_def Let_def)

lemma loadUsers_resume_fields:
  assumes "users_cycle s = Some (ids, logins)"
      and "fan_out PUser nodes ids logins (waiting_user_ids s, waiting_user_logins s, settled s)
             = (wi, wl, lg)"
  shows "waiting_user_ids (loadUsers_resume nodes s) = wi"
    and "waiting_user_logins (loadUsers_resume nodes s) = wl"
    and "settled (loadUsers_resume nodes s) = lg"
  using assms by (simp_all add: loadUsers_resume_def Let_def loadUsers_keeps)

lemma loadStreams_resume_fields:
  assumes "streams_cycle s = Some (ids, logins)"
      and "fan_out (\<lambda>n. PVal (node_stream n)) nodes ids logins
             (waiting_stream_ids s, waiting_stream_logins s, settled s) = (wi, wl, lg)"
  shows "waiting_stream_ids (loadStreams_resume nodes s) = wi"
    and "waiting_stream_logins (loadStreams_resume nodes s) = wl"
    and "settled (loadStreams_resume nodes s) = lg"
  using assms by (simp_all add: loadStreams_resume_def Let_def loadStreams_def)

lemma fan_out_fanned_out:
  assumes fo: "fan_out f nodes ids logins (wi, wl, lg) = (wi', wl', lg')"
  shows "fanned_out f nodes ids logins wi wl lg wi' wl' lg'"
  unfolding fanned_out_def
proof (intro conjI allI impI)
  fix k ps assume p: "map_of wi k = Some ps"
  show "case id_match nodes k of
            Some n \<Rightarrow> map_of wi' k = None \<and> (\<forall>w\<in>set ps. (w, Fulfilled (f n)) \<in> set lg')
          | None \<Rightarrow>
              if k \<in> set ids
              then map_of wi' k = None \<and> (\<forall>w\<in>set ps. (w, Fulfilled (PVal JNull)) \<in> set lg')
              else map_of wi' k = Some ps"
    using fan_out_props(1) [OF fo, of k] fan_out_props(4) [OF fo p] fan_out_props(5) [OF fo p] p
    by (auto split: option.splits)
next
  fix k ps assume p: "map_of wl k = Some ps"
  show "case login_match nodes k of
            Some n \<Rightarrow> map_of wl' k = None \<and> (\<forall>w\<in>set ps. (w, Fulfilled (f n)) \<in> set lg')
          | None \<Rightarrow>
              if k \<in> set logins
              then map_of wl' k = None \<and> (\<forall>w\<in>set ps. (w, Fulfilled (PVal JNull)) \<in> set lg')
              else map_of wl' k = Some ps"
    using fan_out_props(2) [OF fo, of k] fan_out_props(6) [OF fo p] fan_out_props(7) [OF fo p] p
    by (auto split: option.splits)
next
  show "\<exists>ext. lg' = lg @ ext" by (rule fan_out_props(3) [OF fo])
qed

lemma entries_Nil: "entries d [] = []"
  by (simp add: entries_def split: option.splits)

lemma settles_Cons: "settles d ((k, ps) # m) = entries (d k) ps @ settles d m"
  by (simp add: settles_def)

lemma settles_Nil: "settles d [] = []"
  by (simp add: settles_def)

lemma settles_cong:
  "(\<And>k. k \<in> fst ` set m \<Longrightarrow> d k = d' k) \<Longrightarrow> settles d m = settles d' m"
  by (induction m) (auto simp: settles_def)

lemma settles_split:
  "distinct (map fst m) \<Longrightarrow>
     mset (settles d m) =
       mset (entries (d a) (case map_of m a of Some ps \<Rightarrow> ps | None \<Rightarrow> [])) +
       mset (settles d (AList.delete a m))"
proof (induction m)
  case Nil
  then show ?case by (simp add: settles_Nil entries_Nil)
next
  case (Cons p m)
  obtain k ps where p: "p = (k, ps)" by (cases p)
  show ?case
  proof (cases "k = a")
    case True
    with Cons.prems p have "a \<notin> fst ` set m" by auto
    then have "AList.delete a m = m" by simp
    with True p show ?thesis by (simp add: settles_Cons)
  next
    case False
    with Cons p show ?thesis by (simp add: settles_Cons)
  qed
qed

lemma settles_outcomes:
  assumes "\<And>k. d k = (case p k of Some v \<Rightarrow> Some v | None \<Rightarrow> q k)"
  shows "mset (settles d m) =
           mset (settles p m) + mset (settles q (filter (\<lambda>(k, ps). p k = None) m))"
proof (induction m)
  case Nil
  then show ?case by (simp add: settles_Nil)
next
  case (Cons x m)
  obtain k ps where x: "x = (k, ps)" by (cases x)
  show ?case
  proof (cases "p k")
    case None
    with assms [of k] have "d k = q k" by simp
    with None x Cons show ?thesis by (simp add: settles_Cons entries_def)
  next
    case (Some v)
    with assms [of k] have "d k = Some v" by simp
    with Some x Cons show ?thesis by (simp add: settles_Cons)
  qed
qed

lemma filter_filter_keys:
  "(\<And>k. R k = (Q k \<and> P k)) \<Longrightarrow>
     filter (\<lambda>(k, ps). P k) (filter (\<lambda>(k, ps). Q k) m) = filter (\<lambda>(k, ps). R k) m"
  by (induction m) auto

lemma filter_delete:
  "filter (\<lambda>(k, ps). P k) (AList.delete a m) = filter (\<lambda>(k, ps). k \<noteq> a \<and> P k) m"
  by (induction m) auto

lemma resolve_key_entries:
  "resolve_key k v (m, lg) =
     (AList.delete k m,
      lg @ entries (Some v) (case map_of m k of Some ps \<Rightarrow> ps | None \<Rightarrow> []))"
  by (simp add: resolve_key_eq entries_def split: option.splits)

lemma delete_as_filter: "AList.delete a m = filter (\<lambda>(k, ps). k \<noteq> a) m"
  by (induction m) auto

lemma resolve_missing_exact:
  "distinct (map fst m) \<Longrightarrow>
     fst (resolve_missing ks (m, lg)) = filter (\<lambda>(k, ps). k \<notin> set ks) m \<and>
     (\<exists>ext. snd (resolve_missing ks (m, lg)) = lg @ ext \<and>
        mset ext = mset (settles (\<lambda>k. if k \<in> set ks then Some (PVal JNull) else None) m))"
proof (induction ks arbitrary: m lg)
  case Nil
  have "settles (\<lambda>k. None) m = []" by (induction m) (auto simp: settles_def entries_def)
  then show ?case by simp
next
  case (Cons a ks)
  let ?d = "\<lambda>k. if k \<in> set ks then Some (PVal JNull) else None"
  let ?d' = "\<lambda>k. if k \<in> set (a # ks) then Some (PVal JNull) else None"
  let ?e = "entries (Some (PVal JNull)) (case map_of m a of Some ps \<Rightarrow> ps | None \<Rightarrow> [])"
  have dd: "distinct (map fst (AList.delete a m))" using Cons.prems by (rule distinct_delete)
  from Cons.IH [OF dd, of "lg @ ?e"] obtain ext where
    reg: "fst (resolve_missing ks (AList.delete a m, lg @ ?e)) =
            filter (\<lambda>(k, ps). k \<notin> set ks) (AList.delete a m)"
    and lg: "snd (resolve_missing ks (AList.delete a m, lg @ ?e)) = (lg @ ?e) @ ext"
    and ms: "mset ext = mset (settles ?d (AList.delete a m))"
    by blast
  have "settles ?d (AList.delete a m) = settles ?d' (AList.delete a m)"
    by (rule settles_cong) (auto simp: delete_as_filter)
  with ms settles_split [OF Cons.prems, of ?d' a]
  have "mset (?e @ ext) = mset (settles ?d' m)" by simp
  moreover have "filter (\<lambda>(k, ps). k \<notin> set ks) (AList.delete a m)
      = filter (\<lambda>(k, ps). k \<notin> set (a # ks)) m"
    by (auto simp: delete_as_filter intro: filter_cong)
  ultimately show ?case using reg lg
    by (simp add: resolve_key_entries)
qed


lemma resolve_nodes_exact:
  "resolve_nodes f ns (is, ls, wi, wl, lg) = (is', ls', wi', wl', lg') \<Longrightarrow>
   distinct (map fst wi) \<Longrightarrow> distinct (map fst wl) \<Longrightarrow>
   wi' = filter (\<lambda>(k, ps). id_match (Some ns) k = None) wi \<and>
   wl' = filter (\<lambda>(k, ps). login_match (Some ns) k = None) wl \<and>
   (\<exists>ext. lg' = lg @ ext \<and>
      mset ext = mset (settles (\<lambda>k. map_option f (id_match (Some ns) k)) wi) +
                 mset (settles (\<lambda>k. map_option f (login_match (Some ns) k)) wl))"
proof (induction ns arbitrary: "is" ls wi wl lg)
  case Nil
  have "settles (\<lambda>k. None) m = []" for m :: registry
    by (induction m) (auto simp: settles_def entries_def)
  with Nil show ?case by (simp add: id_match_def login_match_def)
next
  case (Cons a ns)
  show ?case
  proof (cases a)
    case None
    with Cons show ?thesis by (simp add: id_match_def login_match_def)
  next
    case (Some n)
    show ?thesis
    proof (cases "truthy (node_id n)")
      case False
      with Some Cons show ?thesis by (simp add: id_match_def login_match_def)
    next
      case True
      let ?i = "node_id n" and ?l = "node_login n"
      let ?x = "entries (Some (f n)) (case map_of wi ?i of Some ps \<Rightarrow> ps | None \<Rightarrow> [])"
      let ?y = "entries (Some (f n)) (case map_of wl ?l of Some ps \<Rightarrow> ps | None \<Rightarrow> [])"
      let ?di = "\<lambda>k. map_option f (id_match (Some ns) k)"
      let ?dl = "\<lambda>k. map_option f (login_match (Some ns) k)"
      let ?di' = "\<lambda>k. map_option f (id_match (Some (a # ns)) k)"
      let ?dl' = "\<lambda>k. map_option f (login_match (Some (a # ns)) k)"
      from True Some Cons.prems(1) have rest:
        "resolve_nodes f ns (removeAll ?i is, removeAll ?l ls,
           AList.delete ?i wi, AList.delete ?l wl, (lg @ ?x) @ ?y)
         = (is', ls', wi', wl', lg')"
        by (simp add: resolve_key_entries)
      have d: "distinct (map fst (AList.delete ?i wi))" "distinct (map fst (AList.delete ?l wl))"
        using Cons.prems(2,3) by (simp_all add: distinct_delete)
      from Cons.IH [OF rest d] obtain ext where
        wi': "wi' = filter (\<lambda>(k, ps). id_match (Some ns) k = None) (AList.delete ?i wi)"
        and wl': "wl' = filter (\<lambda>(k, ps). login_match (Some ns) k = None) (AList.delete ?l wl)"
        and lg': "lg' = ((lg @ ?x) @ ?y) @ ext"
        and ms: "mset ext = mset (settles ?di (AList.delete ?i wi)) +
                            mset (settles ?dl (AList.delete ?l wl))"
        by blast
      have mi: "id_match (Some (a # ns)) k = (if ?i = k then Some n else id_match (Some ns) k)" for k
        using True Some by (simp add: id_match_def)
      have ml: "login_match (Some (a # ns)) k = (if ?l = k then Some n else login_match (Some ns) k)" for k
        using True Some by (simp add: login_match_def)
      have ci: "settles ?di (AList.delete ?i wi) = settles ?di' (AList.delete ?i wi)"
        by (rule settles_cong) (auto simp: mi delete_as_filter)
      have cl: "settles ?dl (AList.delete ?l wl) = settles ?dl' (AList.delete ?l wl)"
        by (rule settles_cong) (auto simp: ml delete_as_filter)
      have si: "mset (settles ?di' wi) = mset ?x + mset (settles ?di' (AList.delete ?i wi))"
        using settles_split [OF Cons.prems(2), of ?di' ?i] by (simp add: mi)
      have sl: "mset (settles ?dl' wl) = mset ?y + mset (settles ?dl' (AList.delete ?l wl))"
        using settles_split [OF Cons.prems(3), of ?dl' ?l] by (simp add: ml)
      have fi: "wi' = filter (\<lambda>(k, ps). id_match (Some (a # ns)) k = None) wi"
        unfolding wi' filter_delete by (rule filter_cong) (auto simp: mi split: if_splits)
      have fl: "wl' = filter (\<lambda>(k, ps). login_match (Some (a # ns)) k = None) wl"
        unfolding wl' filter_delete by (rule filter_cong) (auto simp: ml split: if_splits)
      have l: "lg' = lg @ (?x @ ?y @ ext)" by (simp add: lg')
      have m: "mset (?x @ ?y @ ext) = mset (settles ?di' wi) + mset (settles ?dl' wl)"
        by (simp add: ms ci cl si sl)
      show ?thesis
      proof (intro conjI)
        show "wi' = filter (\<lambda>(k, ps). id_match (Some (a # ns)) k = None) wi" by (rule fi)
        show "wl' = filter (\<lambda>(k, ps). login_match (Some (a # ns)) k = None) wl" by (rule fl)
        show "\<exists>ext. lg' = lg @ ext \<and>
            mset ext = mset (settles ?di' wi) + mset (settles ?dl' wl)"
          using l m by (intro exI [of _ "?x @ ?y @ ext"] conjI)
      qed
    qed
  qed
qed

lemma fan_out_exact:
  assumes fo: "fan_out f nodes ids logins (wi, wl, lg) = (wi', wl', lg')"
      and d: "distinct (map fst wi)" "distinct (map fst wl)"
  shows "settled_exactly f nodes ids logins wi wl lg wi' wl' lg'"
proof -
  from fo obtain is1 ls1 wi1 wl1 lg1 lg2 where
    st: "(case nodes of
        Some ns \<Rightarrow> resolve_nodes f ns (uniq ids, uniq logins, wi, wl, lg)
      | None \<Rightarrow> (uniq ids, uniq logins, wi, wl, lg)) = (is1, ls1, wi1, wl1, lg1)"
    and m1: "resolve_missing is1 (wi1, lg1) = (wi', lg2)"
    and m2: "resolve_missing ls1 (wl1, lg2) = (wl', lg')"
    by (rule fan_out_split)
  note S = fan_out_stage [OF st]
  let ?mi = "\<lambda>k. map_option f (id_match nodes k)"
  let ?ml = "\<lambda>k. map_option f (login_match nodes k)"
  let ?ni = "\<lambda>k. if k \<in> set is1 then Some (PVal JNull) else None"
  let ?nl = "\<lambda>k. if k \<in> set ls1 then Some (PVal JNull) else None"
  have none: "settles (\<lambda>k. None) m = []" for m :: registry
    by (induction m) (auto simp: settles_def entries_def)
  have stage: "wi1 = filter (\<lambda>(k, ps). id_match nodes k = None) wi \<and>
     wl1 = filter (\<lambda>(k, ps). login_match nodes k = None) wl \<and>
     (\<exists>ext. lg1 = lg @ ext \<and> mset ext = mset (settles ?mi wi) + mset (settles ?ml wl))"
  proof (cases nodes)
    case None
    with st show ?thesis by (simp add: id_match_def login_match_def none)
  next
    case (Some ns)
    with st have "resolve_nodes f ns (uniq ids, uniq logins, wi, wl, lg) = (is1, ls1, wi1, wl1, lg1)"
      by simp
    from resolve_nodes_exact [OF this d] Some show ?thesis by simp
  qed
  then obtain e1 where
    wi1: "wi1 = filter (\<lambda>(k, ps). id_match nodes k = None) wi"
    and wl1: "wl1 = filter (\<lambda>(k, ps). login_match nodes k = None) wl"
    and lg1: "lg1 = lg @ e1"
    and ms1: "mset e1 = mset (settles ?mi wi) + mset (settles ?ml wl)"
    by blast
  have d1: "distinct (map fst wi1)" "distinct (map fst wl1)"
    using d by (simp_all add: wi1 wl1 distinct_map_filter)
  from resolve_missing_exact [OF d1(1), of is1 lg1] m1 obtain e2 where
    wi': "wi' = filter (\<lambda>(k, ps). k \<notin> set is1) wi1"
    and lg2: "lg2 = lg1 @ e2"
    and ms2: "mset e2 = mset (settles ?ni wi1)"
    by auto
  from resolve_missing_exact [OF d1(2), of ls1 lg2] m2 obtain e3 where
    wl': "wl' = filter (\<lambda>(k, ps). k \<notin> set ls1) wl1"
    and lg3: "lg' = lg2 @ e3"
    and ms3: "mset e3 = mset (settles ?nl wl1)"
    by auto
  have oi: "id_outcome f nodes ids k = (case ?mi k of Some v \<Rightarrow> Some v | None \<Rightarrow> ?ni k)" for k
    using S(3) [of k] by (auto simp: id_outcome_def split: option.splits)
  have ol: "login_outcome f nodes logins k = (case ?ml k of Some v \<Rightarrow> Some v | None \<Rightarrow> ?nl k)" for k
    using S(4) [of k] by (auto simp: login_outcome_def split: option.splits)
  have si: "mset (settles (id_outcome f nodes ids) wi) = mset (settles ?mi wi) + mset (settles ?ni wi1)"
    using settles_outcomes [where d = "id_outcome f nodes ids" and p = ?mi and q = ?ni and m = wi, OF oi] by (simp add: wi1)
  have sl: "mset (settles (login_outcome f nodes logins) wl) =
              mset (settles ?ml wl) + mset (settles ?nl wl1)"
    using settles_outcomes [where d = "login_outcome f nodes logins" and p = ?ml and q = ?nl and m = wl, OF ol] by (simp add: wl1)
  have pi: "(id_outcome f nodes ids k = None) = (id_match nodes k = None \<and> k \<notin> set is1)" for k
    using S(3) [of k] by (auto simp: id_outcome_def split: option.splits)
  have pl: "(login_outcome f nodes logins k = None) = (login_match nodes k = None \<and> k \<notin> set ls1)" for k
    using S(4) [of k] by (auto simp: login_outcome_def split: option.splits)
  have fi: "wi' = filter (\<lambda>(k, ps). id_outcome f nodes ids k = None) wi"
    unfolding wi' wi1 by (rule filter_filter_keys) (rule pi)
  have fl: "wl' = filter (\<lambda>(k, ps). login_outcome f nodes logins k = None) wl"
    unfolding wl' wl1 by (rule filter_filter_keys) (rule pl)
  have l: "lg' = lg @ (e1 @ e2 @ e3)" by (simp add: lg1 lg2 lg3)
  have m: "mset (e1 @ e2 @ e3) =
      mset (settles (id_outcome f nodes ids) wi) + mset (settles (login_outcome f nodes logins) wl)"
    by (simp add: ms1 ms2 ms3 si sl)
  show ?thesis
    unfolding settled_exactly_def
  proof (intro conjI)
    show "wi' = filter (\<lambda>(k, ps). id_outcome f nodes ids k = None) wi" by (rule fi)
    show "wl' = filter (\<lambda>(k, ps). login_outcome f nodes logins k = None) wl" by (rule fl)
    show "\<exists>ext. lg' = lg @ ext \<and>
        mset ext = mset (settles (id_outcome f nodes ids) wi) +
                   mset (settles (login_outcome f nodes logins) wl)"
      using l m by (intro exI [of _ "e1 @ e2 @ e3"] conjI)
  qed
qed

text \<open>
  C2, as the claim states it, fails in two places. A key that was not selected
  for the cycle is not always left for the next one: two callers ask for the
  same user in one tick, the first by id 1 and the second by login foo; the
  cycle selects id 1 only; its response, the node of user 1 whose login is foo,
  also fulfils the waiter of foo and removes that key. And a node of the
  response counts only when its id is truthy: a selected login foo whose node
  comes without an id is fulfilled with \<^verbatim>\<open>null\<close>.
\<close>

theorem unselected_key_resolved:
  "let n = \<lparr>node_id = JNum 1, node_login = JStr ''foo'', node_stream = JNull\<rparr>;
       s1 = getUserBasic 1 JNull (JStr ''foo'') (getUserBasic 0 (JNum 1) JNull init);
       s2 = loadUsers_resume (Some [Some n]) s1;
       m = \<lparr>node_id = JNull, node_login = JStr ''foo'', node_stream = JNull\<rparr>;
       t1 = getUserBasic 0 JNull (JStr ''foo'') init;
       t2 = loadUsers_resume (Some [Some m]) t1
   in users_cycle s1 = Some ([JNum 1], []) \<and>
      waiting_user_logins s1 = [(JStr ''foo'', [1])] \<and>
      waiting_user_logins s2 = [] \<and>
      settled s2 = [(0, Fulfilled (PUser n)), (1, Fulfilled (PUser n))] \<and>
      queries s2 = [UsersQ (Some [JNum 1]) None] \<and>
      users_cycle t1 = Some ([], [JStr ''foo'']) \<and>
      settled t2 = [(0, Fulfilled (PVal JNull))]"
  by (simp add: init_def getUserBasic_def loadUsers_def loadUsers_resume_def register_def
        select_ids_def select_logins_def or_null_def fulfil_def fan_out_def resolve_key_def
        Let_def)

text \<open>
  C2, amended. When the query of a users or streams cycle succeeds, every waiter
  of a pending key whose entity is in the response (a node with a truthy id that
  has the key as id, or as login: the first such node) is fulfilled with that
  entity (for streams with its \<^verbatim>\<open>stream\<close>), whether the key was selected or not;
  every waiter of a selected key with no such entity is fulfilled with \<^verbatim>\<open>null\<close>;
  a key that was not selected and has no such entity keeps its place and its
  waiters for the next cycle. These fulfilments, one for each waiter of each
  settled key, are all that the cycle adds to the log: no waiter of a key that
  is left is called, and no waiter is rejected. The witness is the example of
  the claim, with one more lookup made while the query is in flight: ids 1 and
  2 and login foo are selected, the response has entities for 1 and foo, the
  three callers get the entity of 1, \<^verbatim>\<open>null\<close> and the entity of foo, and the
  late key 5 stays as it is.
\<close>

theorem resume_fans_out:
  "(users_cycle s = Some (ids, logins) \<longrightarrow>
      fanned_out PUser nodes ids logins
        (waiting_user_ids s) (waiting_user_logins s) (settled s)
        (waiting_user_ids (loadUsers_resume nodes s))
        (waiting_user_logins (loadUsers_resume nodes s))
        (settled (loadUsers_resume nodes s)) \<and>
      (distinct (map fst (waiting_user_ids s)) \<and> distinct (map fst (waiting_user_logins s)) \<longrightarrow>
         settled_exactly PUser nodes ids logins
           (waiting_user_ids s) (waiting_user_logins s) (settled s)
           (waiting_user_ids (loadUsers_resume nodes s))
           (waiting_user_logins (loadUsers_resume nodes s))
           (settled (loadUsers_resume nodes s)))) \<and>
   (streams_cycle s = Some (ids, logins) \<longrightarrow>
      fanned_out (\<lambda>n. PVal (node_stream n)) nodes ids logins
        (waiting_stream_ids s) (waiting_stream_logins s) (settled s)
        (waiting_stream_ids (loadStreams_resume nodes s))
        (waiting_stream_logins (loadStreams_resume nodes s))
        (settled (loadStreams_resume nodes s)) \<and>
      (distinct (map fst (waiting_stream_ids s)) \<and> distinct (map fst (waiting_stream_logins s)) \<longrightarrow>
         settled_exactly (\<lambda>n. PVal (node_stream n)) nodes ids logins
           (waiting_stream_ids s) (waiting_stream_logins s) (settled s)
           (waiting_stream_ids (loadStreams_resume nodes s))
           (waiting_stream_logins (loadStreams_resume nodes s))
           (settled (loadStreams_resume nodes s))))"
proof (intro conjI impI)
  assume c: "users_cycle s = Some (ids, logins)"
  obtain wi wl lg where fo:
    "fan_out PUser nodes ids logins (waiting_user_ids s, waiting_user_logins s, settled s)
       = (wi, wl, lg)"
    by (metis prod_cases3)
  show "fanned_out PUser nodes ids logins
        (waiting_user_ids s) (waiting_user_logins s) (settled s)
        (waiting_user_ids (loadUsers_resume nodes s))
        (waiting_user_logins (loadUsers_resume nodes s))
        (settled (loadUsers_resume nodes s))"
    using fan_out_fanned_out [OF fo] by (simp add: loadUsers_resume_fields [OF c fo])
  assume d: "distinct (map fst (waiting_user_ids s)) \<and> distinct (map fst (waiting_user_logins s))"
  then have "settled_exactly PUser nodes ids logins
        (waiting_user_ids s) (waiting_user_logins s) (settled s) wi wl lg"
    by (intro fan_out_exact [OF fo]) simp_all
  then show "settled_exactly PUser nodes ids logins
        (waiting_user_ids s) (waiting_user_logins s) (settled s)
        (waiting_user_ids (loadUsers_resume nodes s))
        (waiting_user_logins (loadUsers_resume nodes s))
        (settled (loadUsers_resume nodes s))"
    by (simp add: loadUsers_resume_fields [OF c fo])
next
  assume c: "streams_cycle s = Some (ids, logins)"
  obtain wi wl lg where fo:
    "fan_out (\<lambda>n. PVal (node_stream n)) nodes ids logins
       (waiting_stream_ids s, waiting_stream_logins s, settled s) = (wi, wl, lg)"
    by (metis prod_cases3)
  show "fanned_out (\<lambda>n. PVal (node_stream n)) nodes ids logins
        (waiting_stream_ids s) (waiting_stream_logins s) (settled s)
        (waiting_stream_ids (loadStreams_resume nodes s))
        (waiting_stream_logins (loadStreams_resume nodes s))
        (settled (loadStreams_resume nodes s))"
    using fan_out_fanned_out [OF fo] by (simp add: loadStreams_resume_fields [OF c fo])
  assume d: "distinct (map fst (waiting_stream_ids s)) \<and> distinct (map fst (waiting_stream_logins s))"
  then have "settled_exactly (\<lambda>n. PVal (node_stream n)) nodes ids logins
        (waiting_stream_ids s) (waiting_stream_logins s) (settled s) wi wl lg"
    by (intro fan_out_exact [OF fo]) simp_all
  then show "settled_exactly (\<lambda>n. PVal (node_stream n)) nodes ids logins
        (waiting_stream_ids s) (waiting_stream_logins s) (settled s)
        (waiting_stream_ids (loadStreams_resume nodes s))
        (waiting_stream_logins (loadStreams_resume nodes s))
        (settled (loadStreams_resume nodes s))"
    by (simp add: loadStreams_resume_fields [OF c fo])
qed

theorem resume_fans_out_witness:
  "(let n1 = \<lparr>node_id = JNum 1, node_login = JStr ''one'', node_stream = JNull\<rparr>;
        nf = \<lparr>node_id = JNum 7, node_login = JStr ''foo'', node_stream = JNull\<rparr>;
        n9 = \<lparr>node_id = JNum 9, node_login = JStr ''nine'', node_stream = JNull\<rparr>;
        s0 = getUserBasic 0 (JNum 9) JNull init;
        s1 = getUserBasic 3 JNull (JStr ''foo'')
               (getUserBasic 2 (JNum 2) JNull (getUserBasic 1 (JNum 1) JNull s0));
        s2 = getUserBasic 4 (JNum 5) JNull (loadUsers_resume (Some [Some n9]) s1);
        s3 = loadUsers_resume (Some [Some n1, Some nf]) s2
    in users_cycle s2 = Some ([JNum 1, JNum 2], [JStr ''foo'']) \<and>
       waiting_user_ids s2 = [(JNum 1, [1]), (JNum 2, [2]), (JNum 5, [4])] \<and>
       waiting_user_logins s2 = [(JStr ''foo'', [3])] \<and>
       settled s2 = [(0, Fulfilled (PUser n9))] \<and>
       settled s3 = [(0, Fulfilled (PUser n9)), (1, Fulfilled (PUser n1)),
                     (3, Fulfilled (PUser nf)), (2, Fulfilled (PVal JNull))] \<and>
       waiting_user_ids s3 = [(JNum 5, [4])] \<and> waiting_user_logins s3 = [])"
proof -
  let ?s = "getUserBasic 4 (JNum 5) JNull
          (loadUsers_resume
             (Some [Some \<lparr>node_id = JNum 9, node_login = JStr ''nine'', node_stream = JNull\<rparr>])
             (getUserBasic 3 JNull (JStr ''foo'')
                (getUserBasic 2 (JNum 2) JNull
                   (getUserBasic 1 (JNum 1) JNull (getUserBasic 0 (JNum 9) JNull init)))))"
  let ?nodes = "Some [Some \<lparr>node_id = JNum 1, node_login = JStr ''one'', node_stream = JNull\<rparr>,
               Some \<lparr>node_id = JNum 7, node_login = JStr ''foo'', node_stream = JNull\<rparr>]"
  have s: "?s = init\<lparr> waiting_user_ids := [(JNum 1, [1]), (JNum 2, [2]), (JNum 5, [4])],
                       waiting_user_logins := [(JStr ''foo'', [3])],
                       loading_users := True,
                       users_cycle := Some ([JNum 1, JNum 2], [JStr ''foo'']),
                       settled := [(0, Fulfilled (PUser
                          \<lparr>node_id = JNum 9, node_login = JStr ''nine'', node_stream = JNull\<rparr>))],
                       queries := [UsersQ (Some [JNum 9]) None,
                                   UsersQ (Some [JNum 1, JNum 2]) (Some [JStr ''foo''])] \<rparr>"
    by (simp add: init_def getUserBasic_def loadUsers_def loadUsers_resume_def register_def
        select_ids_def select_logins_def or_null_def fulfil_def fan_out_def resolve_key_def
        Let_def)
  have c: "users_cycle ?s = Some ([JNum 1, JNum 2], [JStr ''foo''])"
    unfolding s by simp
  have d: "distinct (map fst (waiting_user_ids ?s)) \<and> distinct (map fst (waiting_user_logins ?s))"
    unfolding s by simp
  from resume_fans_out [of ?s "[JNum 1, JNum 2]" "[JStr ''foo'']" ?nodes,
      THEN conjunct1, THEN mp, OF c, THEN conjunct2, THEN mp, OF d]
  have e: "waiting_user_ids (loadUsers_resume ?nodes ?s) = [(JNum 5, [4])] \<and>
           waiting_user_logins (loadUsers_resume ?nodes ?s) = [] \<and>
           (\<exists>ext. settled (loadUsers_resume ?nodes ?s) = settled ?s @ ext \<and>
              mset ext =
                mset [(1, Fulfilled (PUser
                        \<lparr>node_id = JNum 1, node_login = JStr ''one'', node_stream = JNull\<rparr>)),
                      (2, Fulfilled (PVal JNull))] +
                mset [(3, Fulfilled (PUser
                        \<lparr>node_id = JNum 7, node_login = JStr ''foo'', node_stream = JNull\<rparr>))])"
    unfolding s settled_exactly_def
    by (simp add: init_def id_outcome_def login_outcome_def id_match_def login_match_def
          settles_def entries_def)
  have r: "settled (loadUsers_resume ?nodes ?s) =
      [(0, Fulfilled (PUser \<lparr>node_id = JNum 9, node_login = JStr ''nine'', node_stream = JNull\<rparr>)),
       (1, Fulfilled (PUser \<lparr>node_id = JNum 1, node_login = JStr ''one'', node_stream = JNull\<rparr>)),
       (3, Fulfilled (PUser \<lparr>node_id = JNum 7, node_login = JStr ''foo'', node_stream = JNull\<rparr>)),
       (2, Fulfilled (PVal JNull))]"
    unfolding s
    by (simp add: init_def loadUsers_def loadUsers_resume_def select_ids_def select_logins_def
          or_null_def fulfil_def fan_out_def resolve_key_def Let_def)
  from e r s show ?thesis by (simp add: Let_def init_def)
qed

subsection \<open>The selection of a cycle\<close>

lemma select_logins_eq:
  "select_logins ids wl = take (50 - length ids) (map fst wl)"
proof -
  have "nat (50 - int (length ids)) = 50 - length ids" by arith
  then show ?thesis by (auto simp: select_logins_def Let_def)
qed

lemma select_bound:
  "length (select_ids wi) + length (select_logins (select_ids wi) wl) \<le> 50"
  by (simp add: select_ids_def select_logins_eq)

lemma select_ids_first:
  "select_logins (select_ids wi) wl \<noteq> [] \<Longrightarrow> select_ids wi = map fst wi"
  by (auto simp: select_ids_def select_logins_eq)

lemma select_rest:
  "50 < length wi + length wl \<Longrightarrow>
     drop 50 (map fst wi) \<noteq> [] \<or> drop (50 - length (select_ids wi)) (map fst wl) \<noteq> []"
  by (auto simp: select_ids_def)

lemma unselected_pending:
  assumes "distinct (map fst m)" "k \<in> set (drop n (map fst m))"
  shows "k \<notin> set (take n (map fst m))" "map_of m k \<noteq> None"
proof -
  from assms(1) have "distinct (take n (map fst m) @ drop n (map fst m))" by simp
  with assms(2) show "k \<notin> set (take n (map fst m))" by (auto simp del: append_take_drop_id)
  from assms(2) have "k \<in> set (map fst m)" by (rule in_set_dropD)
  then show "map_of m k \<noteq> None" by (simp add: map_of_eq_None_iff)
qed

lemma loadUsers_start:
  "\<not> loading_users s \<Longrightarrow>
     loadUsers s = s\<lparr> loading_users := True,
       users_cycle := Some (select_ids (waiting_user_ids s),
                            select_logins (select_ids (waiting_user_ids s)) (waiting_user_logins s)),
       queries := queries s @
         [UsersQ (or_null (select_ids (waiting_user_ids s)))
                 (or_null (select_logins (select_ids (waiting_user_ids s)) (waiting_user_logins s)))] \<rparr>"
  by (simp add: loadUsers_def Let_def)

lemma loadStreams_body_start:
  "\<not> loading_streams s \<Longrightarrow>
     loadStreams_body s = s\<lparr> loading_streams := True,
       streams_cycle := Some (select_ids (waiting_stream_ids s),
                            select_logins (select_ids (waiting_stream_ids s)) (waiting_stream_logins s)),
       queries := queries s @
         [StreamsQ (or_null (select_ids (waiting_stream_ids s)))
                 (or_null (select_logins (select_ids (waiting_stream_ids s)) (waiting_stream_logins s)))] \<rparr>"
  by (simp add: loadStreams_body_def Let_def)

lemma fan_out_leftover:
  assumes fo: "fan_out f nodes ids logins (wi, wl, lg) = (wi', wl', lg')"
      and k: "map_of wi k \<noteq> None \<and> k \<notin> set ids \<and> id_match nodes k = None \<or>
              map_of wl k \<noteq> None \<and> k \<notin> set logins \<and> login_match nodes k = None"
  shows "0 < length wi' \<or> 0 < length wl'"
proof -
  from k fan_out_props(1) [OF fo, of k] fan_out_props(2) [OF fo, of k]
  have "map_of wi' k \<noteq> None \<or> map_of wl' k \<noteq> None" by auto
  then show ?thesis by auto
qed

lemma loadUsers_resume_rearm:
  assumes c: "users_cycle s = Some (ids, logins)"
      and k: "map_of (waiting_user_ids s) k \<noteq> None \<and> k \<notin> set ids \<and> id_match nodes k = None \<or>
              map_of (waiting_user_logins s) k \<noteq> None \<and> k \<notin> set logins \<and> login_match nodes k = None"
  shows "\<exists>ids2 logins2.
           ids2 = select_ids (waiting_user_ids (loadUsers_resume nodes s)) \<and>
           logins2 = select_logins ids2 (waiting_user_logins (loadUsers_resume nodes s)) \<and>
           length ids2 + length logins2 \<le> 50 \<and>
           loading_users (loadUsers_resume nodes s) \<and>
           users_cycle (loadUsers_resume nodes s) = Some (ids2, logins2) \<and>
           queries (loadUsers_resume nodes s) = queries s @ [UsersQ (or_null ids2) (or_null logins2)]"
proof -
  obtain wi wl lg where fo:
    "fan_out PUser nodes ids logins (waiting_user_ids s, waiting_user_logins s, settled s)
       = (wi, wl, lg)"
    by (metis prod_cases3)
  from fan_out_leftover [OF fo k] have left: "0 < length wi \<or> 0 < length wl" .
  let ?s' = "s\<lparr> waiting_user_ids := wi, waiting_user_logins := wl, settled := lg,
                 loading_users := False, users_cycle := None \<rparr>"
  from c fo left have r: "loadUsers_resume nodes s = loadUsers ?s'"
    by (auto simp: loadUsers_resume_def Let_def)
  show ?thesis
    unfolding r by (simp add: loadUsers_start select_bound)
qed

lemma loadStreams_resume_rearm:
  assumes c: "streams_cycle s = Some (ids, logins)"
      and k: "map_of (waiting_stream_ids s) k \<noteq> None \<and> k \<notin> set ids \<and> id_match nodes k = None \<or>
              map_of (waiting_stream_logins s) k \<noteq> None \<and> k \<notin> set logins \<and> login_match nodes k = None"
  shows "\<exists>ids2 logins2.
           ids2 = select_ids (waiting_stream_ids (loadStreams_resume nodes s)) \<and>
           logins2 = select_logins ids2 (waiting_stream_logins (loadStreams_resume nodes s)) \<and>
           length ids2 + length logins2 \<le> 50 \<and>
           streams_timer (loadStreams_resume nodes s) \<and>
           \<not> loading_streams (loadStreams_resume nodes s) \<and>
           queries (loadStreams_resume nodes s) = queries s \<and>
           loading_streams (loadStreams_timeout (loadStreams_resume nodes s)) \<and>
           streams_cycle (loadStreams_timeout (loadStreams_resume nodes s)) = Some (ids2, logins2) \<and>
           queries (loadStreams_timeout (loadStreams_resume nodes s)) =
             queries s @ [StreamsQ (or_null ids2) (or_null logins2)]"
proof -
  obtain wi wl lg where fo:
    "fan_out (\<lambda>n. PVal (node_stream n)) nodes ids logins
       (waiting_stream_ids s, waiting_stream_logins s, settled s) = (wi, wl, lg)"
    by (metis prod_cases3)
  from fan_out_leftover [OF fo k] have left: "0 < length wi \<or> 0 < length wl" .
  let ?s' = "s\<lparr> waiting_stream_ids := wi, waiting_stream_logins := wl, settled := lg,
                 loading_streams := False, streams_cycle := None \<rparr>"
  from c fo left have r: "loadStreams_resume nodes s = loadStreams ?s'"
    by (auto simp: loadStreams_resume_def Let_def)
  show ?thesis
    unfolding r
    by (simp add: loadStreams_def loadStreams_timeout_def loadStreams_body_start select_bound)
qed

text \<open>
  C5, as the claim states it, fails in its consequence: more than 50 distinct
  pending keys do not always make a second cycle run. Fifty stream lookups by id
  and one by login foo wait when the timer fires; the cycle selects the fifty
  ids; the response holds the node of id 1, whose login is foo, which settles
  the unselected key foo too; nothing is left pending, the timer is not armed
  again, and one query was all.
\<close>

theorem one_cycle_for_51_keys:
  "let n = \<lparr>node_id = JNum 1, node_login = JStr ''foo'', node_stream = JNull\<rparr>;
       s0 = getStreamMeta 51 JNull (JStr ''foo'')
              (foldl (\<lambda>s i. getStreamMeta i (JNum (int i)) JNull s) init [1..<51]);
       s1 = loadStreams_timeout s0;
       s2 = loadStreams_resume (Some [Some n]) s1
   in length (waiting_stream_ids s0) = 50 \<and>
      distinct (map fst (waiting_stream_ids s0)) \<and>
      waiting_stream_logins s0 = [(JStr ''foo'', [51])] \<and>
      streams_cycle s1 = Some (map (\<lambda>i. JNum (int i)) [1..<51], []) \<and>
      waiting_stream_ids s2 = [] \<and>
      waiting_stream_logins s2 = [] \<and>
      \<not> streams_timer s2 \<and>
      \<not> loading_streams s2 \<and>
      length (queries s2) = 1 \<and>
      queries (loadStreams_timeout s2) = queries s2"
  by code_simp

text \<open>
  C5, amended. A started cycle selects at most 50 keys: the first 50 pending ids
  in insertion order, and only when fewer than 50 ids are pending the first
  pending logins, in insertion order, up to 50 keys in all. With more than 50
  pending keys some pending key is therefore not selected; and when the query
  succeeds and some unselected key has no entity in the response, a second
  cycle is started (for streams through the timer), again with at most 50 keys.
\<close>

theorem cycle_selection_bounded:
  "(let ids = select_ids wi; logins = select_logins ids wl
    in ids = take 50 (map fst wi) \<and>
       logins = take (50 - length ids) (map fst wl) \<and>
       length ids + length logins \<le> 50 \<and>
       (logins \<noteq> [] \<longrightarrow> ids = map fst wi) \<and>
       (50 < length wi + length wl \<longrightarrow>
          drop 50 (map fst wi) \<noteq> [] \<or> drop (50 - length ids) (map fst wl) \<noteq> [])) \<and>
   (\<not> loading_users s \<longrightarrow>
      users_cycle (loadUsers s) =
        Some (select_ids (waiting_user_ids s),
              select_logins (select_ids (waiting_user_ids s)) (waiting_user_logins s))) \<and>
   (\<not> loading_streams s \<longrightarrow>
      streams_cycle (loadStreams_body s) =
        Some (select_ids (waiting_stream_ids s),
              select_logins (select_ids (waiting_stream_ids s)) (waiting_stream_logins s))) \<and>
   (\<not> loading_users s \<and>
    distinct (map fst (waiting_user_ids s)) \<and> distinct (map fst (waiting_user_logins s)) \<and>
    (k \<in> set (drop 50 (map fst (waiting_user_ids s))) \<and> id_match nodes k = None \<or>
     k \<in> set (drop (50 - length (select_ids (waiting_user_ids s)))
                 (map fst (waiting_user_logins s))) \<and> login_match nodes k = None) \<longrightarrow>
      (\<exists>q1 ids2 logins2.
         length ids2 + length logins2 \<le> 50 \<and>
         loading_users (loadUsers_resume nodes (loadUsers s)) \<and>
         users_cycle (loadUsers_resume nodes (loadUsers s)) = Some (ids2, logins2) \<and>
         queries (loadUsers_resume nodes (loadUsers s)) =
           queries s @ [q1, UsersQ (or_null ids2) (or_null logins2)])) \<and>
   (\<not> loading_streams s \<and>
    distinct (map fst (waiting_stream_ids s)) \<and> distinct (map fst (waiting_stream_logins s)) \<and>
    (k \<in> set (drop 50 (map fst (waiting_stream_ids s))) \<and> id_match nodes k = None \<or>
     k \<in> set (drop (50 - length (select_ids (waiting_stream_ids s)))
                 (map fst (waiting_stream_logins s))) \<and> login_match nodes k = None) \<longrightarrow>
      (\<exists>q1 ids2 logins2.
         length ids2 + length logins2 \<le> 50 \<and>
         streams_timer (loadStreams_resume nodes (loadStreams_body s)) \<and>
         loading_streams (loadStreams_timeout (loadStreams_resume nodes (loadStreams_body s))) \<and>
         streams_cycle (loadStreams_timeout (loadStreams_resume nodes (loadStreams_body s))) =
           Some (ids2, logins2) \<and>
         queries (loadStreams_timeout (loadStreams_resume nodes (loadStreams_body s))) =
           queries s @ [q1, StreamsQ (or_null ids2) (or_null logins2)]))"
proof (intro conjI impI)
  show "let ids = select_ids wi; logins = select_logins ids wl
    in ids = take 50 (map fst wi) \<and>
       logins = take (50 - length ids) (map fst wl) \<and>
       length ids + length logins \<le> 50 \<and>
       (logins \<noteq> [] \<longrightarrow> ids = map fst wi) \<and>
       (50 < length wi + length wl \<longrightarrow>
          drop 50 (map fst wi) \<noteq> [] \<or> drop (50 - length ids) (map fst wl) \<noteq> [])"
    unfolding Let_def
  proof (intro conjI impI)
    show "select_ids wi = take 50 (map fst wi)" by (simp add: select_ids_def)
    show "select_logins (select_ids wi) wl = take (50 - length (select_ids wi)) (map fst wl)"
      by (rule select_logins_eq)
    show "length (select_ids wi) + length (select_logins (select_ids wi) wl) \<le> 50"
      by (rule select_bound)
    show "select_ids wi = map fst wi" if "select_logins (select_ids wi) wl \<noteq> []"
      using that by (rule select_ids_first)
    show "drop 50 (map fst wi) \<noteq> [] \<or> drop (50 - length (select_ids wi)) (map fst wl) \<noteq> []"
      if "50 < length wi + length wl"
      using that by (rule select_rest)
  qed
next
  assume "\<not> loading_users s"
  then show "users_cycle (loadUsers s) =
        Some (select_ids (waiting_user_ids s),
              select_logins (select_ids (waiting_user_ids s)) (waiting_user_logins s))"
    by (simp add: loadUsers_start)
next
  assume "\<not> loading_streams s"
  then show "streams_cycle (loadStreams_body s) =
        Some (select_ids (waiting_stream_ids s),
              select_logins (select_ids (waiting_stream_ids s)) (waiting_stream_logins s))"
    by (simp add: loadStreams_body_start)
next
  let ?ids = "select_ids (waiting_user_ids s)"
  let ?logins = "select_logins ?ids (waiting_user_logins s)"
  assume a: "\<not> loading_users s \<and>
    distinct (map fst (waiting_user_ids s)) \<and> distinct (map fst (waiting_user_logins s)) \<and>
    (k \<in> set (drop 50 (map fst (waiting_user_ids s))) \<and> id_match nodes k = None \<or>
     k \<in> set (drop (50 - length ?ids) (map fst (waiting_user_logins s))) \<and>
     login_match nodes k = None)"
  then have st: "loadUsers s = s\<lparr> loading_users := True, users_cycle := Some (?ids, ?logins),
       queries := queries s @ [UsersQ (or_null ?ids) (or_null ?logins)] \<rparr>"
    by (simp add: loadUsers_start)
  have c: "users_cycle (loadUsers s) = Some (?ids, ?logins)" by (simp add: st)
  have k: "map_of (waiting_user_ids (loadUsers s)) k \<noteq> None \<and> k \<notin> set ?ids \<and> id_match nodes k = None \<or>
           map_of (waiting_user_logins (loadUsers s)) k \<noteq> None \<and> k \<notin> set ?logins \<and>
           login_match nodes k = None"
    using a unselected_pending [of "waiting_user_ids s" k 50]
      unselected_pending [of "waiting_user_logins s" k "50 - length ?ids"]
    by (auto simp: st select_ids_def select_logins_eq)
  from loadUsers_resume_rearm [OF c k] obtain ids2 logins2 where
    r: "length ids2 + length logins2 \<le> 50"
       "loading_users (loadUsers_resume nodes (loadUsers s))"
       "users_cycle (loadUsers_resume nodes (loadUsers s)) = Some (ids2, logins2)"
       "queries (loadUsers_resume nodes (loadUsers s)) =
          queries (loadUsers s) @ [UsersQ (or_null ids2) (or_null logins2)]"
    by blast
  have q: "queries (loadUsers s) = queries s @ [UsersQ (or_null ?ids) (or_null ?logins)]"
    by (simp add: st)
  show "\<exists>q1 ids2 logins2.
         length ids2 + length logins2 \<le> 50 \<and>
         loading_users (loadUsers_resume nodes (loadUsers s)) \<and>
         users_cycle (loadUsers_resume nodes (loadUsers s)) = Some (ids2, logins2) \<and>
         queries (loadUsers_resume nodes (loadUsers s)) =
           queries s @ [q1, UsersQ (or_null ids2) (or_null logins2)]"
    using r unfolding q by (intro exI [of _ "UsersQ (or_null ?ids) (or_null ?logins)"]
      exI [of _ ids2] exI [of _ logins2]) simp
next
  let ?ids = "select_ids (waiting_stream_ids s)"
  let ?logins = "select_logins ?ids (waiting_stream_logins s)"
  assume a: "\<not> loading_streams s \<and>
    distinct (map fst (waiting_stream_ids s)) \<and> distinct (map fst (waiting_stream_logins s)) \<and>
    (k \<in> set (drop 50 (map fst (waiting_stream_ids s))) \<and> id_match nodes k = None \<or>
     k \<in> set (drop (50 - length ?ids) (map fst (waiting_stream_logins s))) \<and>
     login_match nodes k = None)"
  then have st: "loadStreams_body s = s\<lparr> loading_streams := True,
       streams_cycle := Some (?ids, ?logins),
       queries := queries s @ [StreamsQ (or_null ?ids) (or_null ?logins)] \<rparr>"
    by (simp add: loadStreams_body_start)
  have c: "streams_cycle (loadStreams_body s) = Some (?ids, ?logins)" by (simp add: st)
  have k: "map_of (waiting_stream_ids (loadStreams_body s)) k \<noteq> None \<and> k \<notin> set ?ids \<and>
           id_match nodes k = None \<or>
           map_of (waiting_stream_logins (loadStreams_body s)) k \<noteq> None \<and> k \<notin> set ?logins \<and>
           login_match nodes k = None"
    using a unselected_pending [of "waiting_stream_ids s" k 50]
      unselected_pending [of "waiting_stream_logins s" k "50 - length ?ids"]
    by (auto simp: st select_ids_def select_logins_eq)
  from loadStreams_resume_rearm [OF c k] obtain ids2 logins2 where
    r: "length ids2 + length logins2 \<le> 50"
       "streams_timer (loadStreams_resume nodes (loadStreams_body s))"
       "loading_streams (loadStreams_timeout (loadStreams_resume nodes (loadStreams_body s)))"
       "streams_cycle (loadStreams_timeout (loadStreams_resume nodes (loadStreams_body s))) =
          Some (ids2, logins2)"
       "queries (loadStreams_timeout (loadStreams_resume nodes (loadStreams_body s))) =
          queries (loadStreams_body s) @ [StreamsQ (or_null ids2) (or_null logins2)]"
    by blast
  have q: "queries (loadStreams_body s) =
             queries s @ [StreamsQ (or_null ?ids) (or_null ?logins)]"
    by (simp add: st)
  show "\<exists>q1 ids2 logins2.
         length ids2 + length logins2 \<le> 50 \<and>
         streams_timer (loadStreams_resume nodes (loadStreams_body s)) \<and>
         loading_streams (loadStreams_timeout (loadStreams_resume nodes (loadStreams_body s))) \<and>
         streams_cycle (loadStreams_timeout (loadStreams_resume nodes (loadStreams_body s))) =
           Some (ids2, logins2) \<and>
         queries (loadStreams_timeout (loadStreams_resume nodes (loadStreams_body s))) =
           queries s @ [q1, StreamsQ (or_null ids2) (or_null logins2)]"
    using r unfolding q by (intro exI [of _ "StreamsQ (or_null ?ids) (or_null ?logins)"]
      exI [of _ ids2] exI [of _ logins2]) simp
qed

theorem cycle_selection_bounded_witness:
  "\<exists>q1 ids2 logins2.
     length ids2 + length logins2 \<le> 50 \<and>
     streams_timer
       (loadStreams_resume (Some [])
          (loadStreams_body
             ((foldl (\<lambda>s i. getStreamMeta i (JNum (int i)) JNull s) init [1..<52])
                \<lparr> streams_timer := False \<rparr>))) \<and>
     loading_streams
       (loadStreams_timeout
          (loadStreams_resume (Some [])
             (loadStreams_body
                ((foldl (\<lambda>s i. getStreamMeta i (JNum (int i)) JNull s) init [1..<52])
                   \<lparr> streams_timer := False \<rparr>)))) \<and>
     streams_cycle
       (loadStreams_timeout
          (loadStreams_resume (Some [])
             (loadStreams_body
                ((foldl (\<lambda>s i. getStreamMeta i (JNum (int i)) JNull s) init [1..<52])
                   \<lparr> streams_timer := False \<rparr>)))) = Some (ids2, logins2) \<and>
     queries
       (loadStreams_timeout
          (loadStreams_resume (Some [])
             (loadStreams_body
                ((foldl (\<lambda>s i. getStreamMeta i (JNum (int i)) JNull s) init [1..<52])
                   \<lparr> streams_timer := False \<rparr>)))) =
     queries
       ((foldl (\<lambda>s i. getStreamMeta i (JNum (int i)) JNull s) init [1..<52])
          \<lparr> streams_timer := False \<rparr>) @ [q1, StreamsQ (or_null ids2) (or_null logins2)]"
proof -
  let ?S = "(foldl (\<lambda>s i. getStreamMeta i (JNum (int i)) JNull s) init [1..<52])
              \<lparr> streams_timer := False \<rparr>"
  have h: "\<not> loading_streams ?S \<and>
    distinct (map fst (waiting_stream_ids ?S)) \<and> distinct (map fst (waiting_stream_logins ?S)) \<and>
    (JNum 51 \<in> set (drop 50 (map fst (waiting_stream_ids ?S))) \<and> id_match (Some []) (JNum 51) = None \<or>
     JNum 51 \<in> set (drop (50 - length (select_ids (waiting_stream_ids ?S)))
                 (map fst (waiting_stream_logins ?S))) \<and> login_match (Some []) (JNum 51) = None)"
    by code_simp
  from cycle_selection_bounded [of "[]" "[]" ?S "JNum 51" "Some []", THEN conjunct2,
      THEN conjunct2, THEN conjunct2, THEN conjunct2, THEN mp, OF h]
  show ?thesis .
qed

subsection \<open>Invariants\<close>

text \<open>
  The registries keep the keys of a \<^verbatim>\<open>Map\<close>: new keys go to the end and no key
  occurs twice. The keys that \<^verbatim>\<open>_loadUsers\<close> selects are registered, and lookups
  made while the query is in flight leave them so. Every cache entry stays
  under its own id.
\<close>

lemma register_keys:
  "map fst (register k w m) = (if k \<in> set (map fst m) then map fst m else map fst m @ [k])"
  by (cases "map_of m k") (simp_all add: register_def update_keys)

lemma register_distinct:
  "distinct (map fst m) \<Longrightarrow> distinct (map fst (register k w m))"
  by (simp add: register_keys)

lemma resolve_missing_distinct:
  "distinct (map fst m) \<Longrightarrow> distinct (map fst (fst (resolve_missing ks (m, lg))))"
  by (induction ks arbitrary: m lg) (simp_all add: resolve_key_eq distinct_delete)

lemma resolve_nodes_distinct:
  "resolve_nodes f ns (is, ls, wi, wl, lg) = (is', ls', wi', wl', lg') \<Longrightarrow>
   distinct (map fst wi) \<Longrightarrow> distinct (map fst wl) \<Longrightarrow>
   distinct (map fst wi') \<and> distinct (map fst wl')"
proof (induction ns arbitrary: "is" ls wi wl lg)
  case Nil
  then show ?case by simp
next
  case (Cons a ns)
  show ?case
  proof (cases a)
    case None
    with Cons show ?thesis by simp
  next
    case (Some n)
    show ?thesis
    proof (cases "truthy (node_id n)")
      case False
      with Some Cons show ?thesis by simp
    next
      case True
      with Some Cons.prems(1) obtain lg1 where
        "resolve_nodes f ns (removeAll (node_id n) is, removeAll (node_login n) ls,
           AList.delete (node_id n) wi, AList.delete (node_login n) wl, lg1)
         = (is', ls', wi', wl', lg')"
        by (auto simp: resolve_key_eq)
      from Cons.IH [OF this] Cons.prems(2,3) show ?thesis by (simp add: distinct_delete)
    qed
  qed
qed

lemma fan_out_distinct:
  assumes fo: "fan_out f nodes ids logins (wi, wl, lg) = (wi', wl', lg')"
      and d: "distinct (map fst wi)" "distinct (map fst wl)"
  shows "distinct (map fst wi') \<and> distinct (map fst wl')"
proof -
  from fo obtain is1 ls1 wi1 wl1 lg1 lg2 where
    st: "(case nodes of
        Some ns \<Rightarrow> resolve_nodes f ns (uniq ids, uniq logins, wi, wl, lg)
      | None \<Rightarrow> (uniq ids, uniq logins, wi, wl, lg)) = (is1, ls1, wi1, wl1, lg1)"
    and m1: "resolve_missing is1 (wi1, lg1) = (wi', lg2)"
    and m2: "resolve_missing ls1 (wl1, lg2) = (wl', lg')"
    by (rule fan_out_split)
  have "distinct (map fst wi1) \<and> distinct (map fst wl1)"
    using st d resolve_nodes_distinct [of f _ "uniq ids" "uniq logins" wi wl lg is1 ls1 wi1 wl1 lg1]
    by (cases nodes) auto
  with resolve_missing_distinct [of wi1 is1 lg1] resolve_missing_distinct [of wl1 ls1 lg2] m1 m2
  show ?thesis by simp
qed

lemma reject_keys_distinct:
  "distinct (map fst m) \<Longrightarrow> distinct (map fst (fst (snd (reject_keys e ks (m, lg)))))"
  by (induction ks arbitrary: m lg) (auto simp: distinct_delete split: option.splits)

lemma users_registries_distinct:
  assumes "distinct (map fst (waiting_user_ids s))" "distinct (map fst (waiting_user_logins s))"
  shows "distinct (map fst (waiting_user_ids (getUserBasic w ident login s))) \<and>
         distinct (map fst (waiting_user_logins (getUserBasic w ident login s)))"
    and "distinct (map fst (waiting_user_ids (snd (loadUsers_catch err s)))) \<and>
         distinct (map fst (waiting_user_logins (snd (loadUsers_catch err s))))"
    and "distinct (map fst (waiting_user_ids (loadUsers_resume nodes s))) \<and>
         distinct (map fst (waiting_user_logins (loadUsers_resume nodes s)))"
proof -
  show "distinct (map fst (waiting_user_ids (getUserBasic w ident login s))) \<and>
         distinct (map fst (waiting_user_logins (getUserBasic w ident login s)))"
    using assms by (simp add: getUserBasic_def Let_def loadUsers_keeps register_distinct)
  show "distinct (map fst (waiting_user_ids (snd (loadUsers_catch err s)))) \<and>
         distinct (map fst (waiting_user_logins (snd (loadUsers_catch err s))))"
  proof (cases "users_cycle s")
    case None
    with assms show ?thesis by (simp add: loadUsers_catch_def)
  next
    case (Some c)
    obtain ids logins where c: "c = (ids, logins)" by (cases c)
    obtain e1 wi lg where r1: "reject_keys err ids (waiting_user_ids s, settled s) = (e1, wi, lg)"
      by (metis prod_cases3)
    obtain e2 wl lg' where r2: "reject_keys err logins (waiting_user_logins s, lg) = (e2, wl, lg')"
      by (metis prod_cases3)
    have "distinct (map fst wi)" "distinct (map fst wl)"
      using reject_keys_distinct [OF assms(1), of err ids "settled s"]
        reject_keys_distinct [OF assms(2), of err logins lg] r1 r2 by simp_all
    with Some c r1 r2 assms(2) show ?thesis
      by (cases e1) (simp_all add: loadUsers_catch_def)
  qed
  show "distinct (map fst (waiting_user_ids (loadUsers_resume nodes s))) \<and>
         distinct (map fst (waiting_user_logins (loadUsers_resume nodes s)))"
  proof (cases "users_cycle s")
    case None
    with assms show ?thesis by (simp add: loadUsers_resume_def)
  next
    case (Some c)
    obtain ids logins where c: "users_cycle s = Some (ids, logins)" using Some by (cases c) simp
    obtain wi wl lg where fo:
      "fan_out PUser nodes ids logins (waiting_user_ids s, waiting_user_logins s, settled s)
         = (wi, wl, lg)"
      by (metis prod_cases3)
    from fan_out_distinct [OF fo assms] show ?thesis
      by (simp add: loadUsers_resume_fields [OF c fo])
  qed
qed

lemma streams_registries_distinct:
  assumes "distinct (map fst (waiting_stream_ids s))" "distinct (map fst (waiting_stream_logins s))"
  shows "distinct (map fst (waiting_stream_ids (getStreamMeta w ident login s))) \<and>
         distinct (map fst (waiting_stream_logins (getStreamMeta w ident login s)))"
    and "distinct (map fst (waiting_stream_ids (loadStreams_timeout s))) \<and>
         distinct (map fst (waiting_stream_logins (loadStreams_timeout s)))"
    and "distinct (map fst (waiting_stream_ids (loadStreams_resume nodes s))) \<and>
         distinct (map fst (waiting_stream_logins (loadStreams_resume nodes s)))"
proof -
  show "distinct (map fst (waiting_stream_ids (getStreamMeta w ident login s))) \<and>
         distinct (map fst (waiting_stream_logins (getStreamMeta w ident login s)))"
    using assms by (simp add: getStreamMeta_def Let_def loadStreams_def register_distinct)
  show "distinct (map fst (waiting_stream_ids (loadStreams_timeout s))) \<and>
         distinct (map fst (waiting_stream_logins (loadStreams_timeout s)))"
    using assms by (simp add: loadStreams_timeout_def loadStreams_body_def Let_def)
  show "distinct (map fst (waiting_stream_ids (loadStreams_resume nodes s))) \<and>
         distinct (map fst (waiting_stream_logins (loadStreams_resume nodes s)))"
  proof (cases "streams_cycle s")
    case None
    with assms show ?thesis by (simp add: loadStreams_resume_def)
  next
    case (Some c)
    obtain ids logins where c: "streams_cycle s = Some (ids, logins)" using Some by (cases c) simp
    obtain wi wl lg where fo:
      "fan_out (\<lambda>n. PVal (node_stream n)) nodes ids logins
         (waiting_stream_ids s, waiting_stream_logins s, settled s) = (wi, wl, lg)"
      by (metis prod_cases3)
    from fan_out_distinct [OF fo assms] show ?thesis
      by (simp add: loadStreams_resume_fields [OF c fo])
  qed
qed

lemma map_has_take:
  "k \<in> set (take n (map fst m)) \<Longrightarrow> map_has k m"
  by (auto simp: map_has_def map_of_eq_None_iff dest!: in_set_takeD)

lemma map_has_register:
  "map_has k m \<Longrightarrow> map_has k (register k' w m)"
  by (cases "map_of m k'") (auto simp: map_has_def register_def update_conv')

lemma loadUsers_selected_pending:
  assumes "\<not> loading_users s"
      and "distinct (map fst (waiting_user_ids s))" "distinct (map fst (waiting_user_logins s))"
  shows "\<exists>ids logins. users_cycle (loadUsers s) = Some (ids, logins) \<and>
           distinct ids \<and> distinct logins \<and>
           (\<forall>k\<in>set ids. map_has k (waiting_user_ids (loadUsers s))) \<and>
           (\<forall>k\<in>set logins. map_has k (waiting_user_logins (loadUsers s)))"
  using assms
  by (simp add: loadUsers_start select_ids_def select_logins_eq distinct_take)
     (blast intro: map_has_take)

lemma getUserBasic_keeps_cycle:
  assumes "loading_users s"
  shows "users_cycle (getUserBasic w ident login s) = users_cycle s"
    and "loading_users (getUserBasic w ident login s)"
    and "map_has k (waiting_user_ids s) \<Longrightarrow>
           map_has k (waiting_user_ids (getUserBasic w ident login s))"
    and "map_has k (waiting_user_logins s) \<Longrightarrow>
           map_has k (waiting_user_logins (getUserBasic w ident login s))"
  using assms by (auto simp: getUserBasic_def Let_def intro: map_has_register)

lemma cache_ok_cong: "tag_cache s' = tag_cache s \<Longrightarrow> cache_ok s' = cache_ok s"
  by (simp add: cache_ok_def)

lemma loadTags_nodes_cache_ok:
  "cache_ok s \<Longrightarrow> cache_ok (snd (snd (loadTags_nodes ns ids s)))"
proof (induction ns arbitrary: ids s)
  case Nil
  then show ?case by simp
next
  case (Cons node ns)
  obtain r s1 where m: "memorizeTag node False s = (r, s1)" by (cases "memorizeTag node False s")
  have ok1: "cache_ok s1" using memorizeTag_cache_ok [OF Cons.prems, of node False] m by simp
  show ?case
  proof (cases r)
    case None
    with m ok1 show ?thesis by simp
  next
    case (Some t)
    let ?s2 = "s1\<lparr> waiting_tags := AList.delete (tag_id t) (waiting_tags s1) \<rparr>"
    have ok2: "cache_ok ?s2" using ok1 by (simp add: cache_ok_def)
    show ?thesis
    proof (cases "map_of (waiting_tags s1) (tag_id t)")
      case None
      with Some m Cons.IH [OF ok2] show ?thesis by (simp add: Let_def)
    next
      case (Some ps)
      have "cache_ok (?s2\<lparr> settled := fulfil (PTag t) ps (settled ?s2) \<rparr>)"
        using ok2 by (simp add: cache_ok_def)
      from Cons.IH [OF this] Some \<open>r = Some t\<close> m show ?thesis by (simp add: Let_def)
    qed
  qed
qed

lemma getTopTags_nodes_cache_ok:
  "cache_ok s \<Longrightarrow> cache_ok (snd (getTopTags_nodes ns seen out s))"
proof (induction ns seen out s rule: getTopTags_nodes.induct)
  case (1 seen out s)
  then show ?case by simp
next
  case (2 nodes seen out s)
  then show ?case by simp
next
  case (3 n nodes seen out s)
  show ?case
  proof (cases "tn_id n \<in> set seen")
    case True
    with 3 show ?thesis by simp
  next
    case False
    obtain t s1 where m: "memorizeTag (Some n) True s = (t, s1)"
      by (cases "memorizeTag (Some n) True s")
    have ok1: "cache_ok s1"
      using memorizeTag_cache_ok [OF "3.prems", of "Some n" True] m by simp
    from "3.IH"(2) [OF False m [symmetric] ok1] False m show ?thesis by simp
  qed
qed

lemma tags_cache_ok:
  assumes "cache_ok s"
  shows "cache_ok (getTag w ident want s)"
    and "cache_ok (loadTags_timeout s)"
    and "cache_ok (snd (loadTags_catch err s))"
    and "cache_ok (snd (loadTags_resume tnodes s))"
    and "cache_ok (snd (getTopTags_resume tnodes s))"
proof -
  show "cache_ok (getTag w ident want s)"
    using assms
    by (auto simp: getTag_def Let_def loadTags_def cache_ok_def split: option.splits)
  show "cache_ok (loadTags_timeout s)"
    using assms by (simp add: loadTags_timeout_def loadTags_body_def Let_def cache_ok_def)
  show "cache_ok (snd (loadTags_catch err s))"
    using assms by (simp add: cache_ok_def catch_keeps_cache)
  show "cache_ok (snd (getTopTags_resume tnodes s))"
    using assms getTopTags_nodes_cache_ok [OF assms]
    by (simp add: getTopTags_resume_def split: option.splits)
  show "cache_ok (snd (loadTags_resume tnodes s))"
  proof (cases "tags_cycle s")
    case None
    with assms show ?thesis by (simp add: loadTags_resume_def)
  next
    case (Some ids)
    obtain e id_set s1 where st:
      "(case tnodes of Some ns \<Rightarrow> loadTags_nodes ns (uniq ids) s | None \<Rightarrow> (None, uniq ids, s))
         = (e, id_set, s1)"
      by (metis prod_cases3)
    have ok1: "cache_ok s1"
    proof (cases tnodes)
      case None
      with st assms show ?thesis by simp
    next
      case (Some ns)
      with st have "s1 = snd (snd (loadTags_nodes ns (uniq ids) s))" by simp
      with loadTags_nodes_cache_ok [OF assms, of ns "uniq ids"] show ?thesis by simp
    qed
    obtain e2 wt lg where ms: "loadTags_missing id_set (waiting_tags s1, settled s1) = (e2, wt, lg)"
      by (metis prod_cases3)
    from Some st ms ok1 show ?thesis
      by (cases e; cases e2) (simp_all add: loadTags_resume_def Let_def loadTags_def cache_ok_def)
  qed
qed

end
